theory Spec2Isabelle
  imports Complex_Main
begin

section \<open>Lifecycle phases and instantiation kinds\<close>

text \<open>
  Modelled from the spec: the enum \<open>LifecyclePhase\<close> is declared in
  \<open>vs/workbench/services/lifecycle/common/lifecycle\<close>, which is not among the sources.
  The spec gives it as the ordered enum Starting < Ready < Restored < Eventually; the
  numbers are those the comparison \<open>lifecycleService.phase >= instantiation\<close> works on.
\<close>

datatype LifecyclePhase = Starting | Ready | Restored | Eventually

fun phase_num :: "LifecyclePhase \<Rightarrow> nat" where
  "phase_num Starting = 1"
| "phase_num Ready = 2"
| "phase_num Restored = 3"
| "phase_num Eventually = 4"

text \<open>
  \<open>WorkbenchContributionInstantiation\<close>: the first four members are numerically the
  lifecycle phases, \<open>Lazy = LifecyclePhase.Eventually + 1\<close>. The member
  \<open>Eventually\<close> is written \<open>Eventually'\<close> here.
\<close>

datatype WorkbenchContributionInstantiation =
  BlockStartup | BlockRestore | AfterRestored | Eventually' | Lazy

fun inst_num :: "WorkbenchContributionInstantiation \<Rightarrow> nat" where
  "inst_num BlockStartup = phase_num Starting"
| "inst_num BlockRestore = phase_num Ready"
| "inst_num AfterRestored = phase_num Restored"
| "inst_num Eventually' = phase_num Eventually"
| "inst_num Lazy = phase_num Eventually + 1"

fun toInstantiation :: "LifecyclePhase \<Rightarrow> WorkbenchContributionInstantiation" where
  "toInstantiation Starting = BlockStartup"
| "toInstantiation Ready = BlockRestore"
| "toInstantiation Restored = AfterRestored"
| "toInstantiation Eventually = Eventually'"

text \<open>
  \<open>toPhase\<close> has no case for \<open>Lazy\<close>: the switch falls through and the function
  returns \<open>undefined\<close>, here \<open>None\<close>.
\<close>

fun toPhase :: "WorkbenchContributionInstantiation \<Rightarrow> LifecyclePhase option" where
  "toPhase BlockStartup = Some Starting"
| "toPhase BlockRestore = Some Ready"
| "toPhase AfterRestored = Some Restored"
| "toPhase Eventually' = Some Eventually"
| "toPhase Lazy = None"

section \<open>Data model of the registry\<close>

text \<open>A constructor is known to the registry by its \<open>name\<close> only.\<close>

datatype ctor = Ctor (ctor_name: string)

text \<open>\<open>IWorkbenchContributionRegistration\<close>: \<open>{ id: string | undefined, ctor }\<close>.\<close>

record IWorkbenchContributionRegistration =
  reg_id :: "string option"
  reg_ctor :: ctor

text \<open>
  A contribution instance is an opaque object; \<open>Instance k n\<close> is the object that the
  \<open>n\<close>-th call of \<open>createInstance\<close> built from \<open>k\<close>, so two calls never yield the same
  reference.
\<close>

datatype IWorkbenchContribution = Instance ctor nat

datatype mark_label =
  WillCreateWorkbenchContributions LifecyclePhase
| DidCreateWorkbenchContributions LifecyclePhase
| WillCreateWorkbenchContribution LifecyclePhase string
| DidCreateWorkbenchContribution LifecyclePhase string

text \<open>
  The calls the registry makes to its collaborators, in the order it makes them:
  \<open>mark\<close>, \<open>instantiationService.createInstance\<close> (with the descriptor it is made
  for), \<open>logService.error\<close>, the two \<open>logService.warn\<close> messages,
  \<open>console.error\<close>, \<open>runWhenGlobalIdle\<close> (with its forced timeout) and
  \<open>pendingRestoredContributions.complete\<close>.
\<close>

datatype effect =
  Mark mark_label
| CreateInstance IWorkbenchContributionRegistration
| LogError string
| LogWarnSlow string int
| LogWarnLazyEarly string
| ConsoleError string
| RunWhenGlobalIdle nat
| Complete

text \<open>The three errors \<open>getWorkbenchContribution\<close> throws.\<close>

datatype error = NotStarted string | UnknownContribution string | FailedToCreate string

text \<open>
  Modelled from the spec: \<open>DeferredPromise\<close> (\<open>vs/base/common/async\<close>, not among the
  sources) is a single-fire completion flag; \<open>complete\<close> resolves it when it is pending
  and changes nothing afterwards.
\<close>

datatype promise_state = Pending | Resolved | Rejected

text \<open>
  A scheduled idle callback: the closure \<open>instantiateSome\<close> of one call of
  \<open>doInstantiateWhenIdle\<close>, with the variables it closes over (\<open>contributions\<close>,
  \<open>i\<close>, \<open>phase\<close>, \<open>forcedTimeout\<close>).
\<close>

record idle_task =
  task_contributions :: "IWorkbenchContributionRegistration list"
  task_i :: nat
  task_phase :: LifecyclePhase
  task_timeout :: nat

text \<open>
  The registry object together with what it is suspended on and the world around it:
  \<^item> \<open>started\<close>: the four services are set (they are set together, by \<open>start\<close>);
  \<^item> \<open>lifecyclePhase\<close>: \<open>lifecycleService.phase\<close>; \<open>isBuilt\<close>: \<open>environmentService.isBuilt\<close>;
  \<^item> the four maps and the promise of the class;
  \<^item> \<open>phaseWaiters\<close>: the continuations registered with \<open>lifecycleService.when(phase).then\<close>;
  \<^item> \<open>awaitingRestored\<close>: calls of \<open>doInstantiateByPhase\<close> suspended at the \<open>await\<close>;
  \<^item> \<open>idleQueue\<close>: callbacks handed to \<open>runWhenGlobalIdle\<close> that have not run yet;
  \<^item> \<open>trace\<close>: the calls to collaborators so far;
  \<^item> \<open>factoryCalls\<close>: how often \<open>createInstance\<close> has been called; the \<open>n\<close>-th call
    throws when \<open>createThrows n\<close>, and \<open>Date.now()\<close> advances by \<open>createElapsed n\<close>
    milliseconds around it.
\<close>

record registry =
  started :: bool
  lifecyclePhase :: LifecyclePhase
  isBuilt :: bool
  contributionsByPhase :: "LifecyclePhase \<rightharpoonup> IWorkbenchContributionRegistration list"
  contributionsById :: "string \<rightharpoonup> IWorkbenchContributionRegistration"
  instancesById :: "string \<rightharpoonup> IWorkbenchContribution"
  timingsByPhase :: "LifecyclePhase \<rightharpoonup> (string \<times> int) list"
  whenRestored :: promise_state
  phaseWaiters :: "LifecyclePhase list"
  awaitingRestored :: "IWorkbenchContributionRegistration list list"
  idleQueue :: "idle_task list"
  trace :: "effect list"
  factoryCalls :: nat
  createThrows :: "nat \<Rightarrow> bool"
  createElapsed :: "nat \<Rightarrow> int"

definition init :: "(nat \<Rightarrow> bool) \<Rightarrow> (nat \<Rightarrow> int) \<Rightarrow> bool \<Rightarrow> registry" where
  "init thr el built =
     \<lparr> started = False, lifecyclePhase = Starting, isBuilt = built,
       contributionsByPhase = Map.empty, contributionsById = Map.empty,
       instancesById = Map.empty, timingsByPhase = Map.empty,
       whenRestored = Pending, phaseWaiters = [], awaitingRestored = [],
       idleQueue = [], trace = [], factoryCalls = 0,
       createThrows = thr, createElapsed = el \<rparr>"

section \<open>Collaborators\<close>

definition emit :: "effect \<Rightarrow> registry \<Rightarrow> registry" where
  "emit e s = s\<lparr>trace := trace s @ [e]\<rparr>"

definition mark :: "mark_label \<Rightarrow> registry \<Rightarrow> registry" where
  "mark l s = emit (Mark l) s"

text \<open>
  \<open>instantiationService.createInstance(ctor)\<close>: returns a fresh object or throws
  (\<open>None\<close>). The constructor is taken not to call back into the registry.
\<close>

definition createInstance ::
  "ctor \<Rightarrow> registry \<Rightarrow> IWorkbenchContribution option \<times> registry" where
  "createInstance k s =
     (let n = factoryCalls s
      in (if createThrows s n then None else Some (Instance k n),
          s\<lparr>factoryCalls := Suc n\<rparr>))"

text \<open>
  Modelled from the spec: \<open>runWhenGlobalIdle(callback, forcedTimeout)\<close>
  (\<open>vs/base/common/async\<close>, not among the sources) schedules the callback to be called
  once, with a deadline, in a later turn.
\<close>

definition runWhenGlobalIdle :: "idle_task \<Rightarrow> registry \<Rightarrow> registry" where
  "runWhenGlobalIdle t s =
     (emit (RunWhenGlobalIdle (task_timeout t)) s)\<lparr>idleQueue := idleQueue s @ [t]\<rparr>"

text \<open>
  Modelled from the spec: \<open>DeferredPromise.complete()\<close> resolves the promise when it is
  pending; a further call finds it settled and changes nothing.
\<close>

definition complete :: "registry \<Rightarrow> registry" where
  "complete s =
     (emit Complete s)\<lparr>whenRestored :=
        (if whenRestored s = Pending then Resolved else whenRestored s)\<rparr>"

section \<open>safeCreateContribution\<close>

text \<open>\<open>contribution.id ?? contribution.ctor.name\<close>\<close>

definition display_name :: "IWorkbenchContributionRegistration \<Rightarrow> string" where
  "display_name c = (case reg_id c of Some i \<Rightarrow> i | None \<Rightarrow> ctor_name (reg_ctor c))"

definition BLOCK_BEFORE_RESTORE_WARN_THRESHOLD :: int where
  "BLOCK_BEFORE_RESTORE_WARN_THRESHOLD = 20"

definition BLOCK_AFTER_RESTORE_WARN_THRESHOLD :: int where
  "BLOCK_AFTER_RESTORE_WARN_THRESHOLD = 100"

text \<open>The \<open>try\<close>/\<open>catch\<close>/\<open>finally\<close> block of \<open>safeCreateContribution\<close>.\<close>

definition tryCreate ::
  "IWorkbenchContributionRegistration \<Rightarrow> LifecyclePhase \<Rightarrow> registry \<Rightarrow> registry" where
  "tryCreate c ph s =
     (let s1 = (case reg_id c of
                  Some i \<Rightarrow> mark (WillCreateWorkbenchContribution ph i) s
                | None \<Rightarrow> s);
          r = createInstance (reg_ctor c) (emit (CreateInstance c) s1);
          s3 = (case fst r of
                  Some inst \<Rightarrow>
                    (case reg_id c of
                       Some i \<Rightarrow> (snd r)\<lparr>instancesById := (instancesById (snd r))(i \<mapsto> inst),
                                        contributionsById := (contributionsById (snd r))(i := None)\<rparr>
                     | None \<Rightarrow> snd r)
                | None \<Rightarrow> emit (LogError (display_name c)) (snd r))
      in (case reg_id c of
            Some i \<Rightarrow> mark (DidCreateWorkbenchContribution ph i) s3
          | None \<Rightarrow> s3))"

text \<open>
  The block after it: the slow-creation warning and the timing entry. \<open>n\<close> is the
  number of the \<open>createInstance\<close> call the two \<open>Date.now()\<close> readings enclose.
\<close>

definition recordTiming ::
  "IWorkbenchContributionRegistration \<Rightarrow> LifecyclePhase \<Rightarrow> nat \<Rightarrow> registry \<Rightarrow> registry" where
  "recordTiming c ph n s =
     (if reg_id c \<noteq> None \<or> \<not> isBuilt s then
        (let time = createElapsed s n;
             s1 = (if time > (if phase_num ph < phase_num Restored
                              then BLOCK_BEFORE_RESTORE_WARN_THRESHOLD
                              else BLOCK_AFTER_RESTORE_WARN_THRESHOLD)
                   then emit (LogWarnSlow (display_name c) time) s else s)
         in (case reg_id c of
               Some i \<Rightarrow>
                 s1\<lparr>timingsByPhase := (timingsByPhase s1)
                      (ph \<mapsto> (case timingsByPhase s1 ph of None \<Rightarrow> [] | Some ts \<Rightarrow> ts) @ [(i, time)])\<rparr>
             | None \<Rightarrow> s1))
      else s)"

definition safeCreateContribution ::
  "IWorkbenchContributionRegistration \<Rightarrow> LifecyclePhase \<Rightarrow> registry \<Rightarrow> registry" where
  "safeCreateContribution c ph s =
     (if (case reg_id c of Some i \<Rightarrow> instancesById s i \<noteq> None | None \<Rightarrow> False) then s
      else recordTiming c ph (factoryCalls s) (tryCreate c ph s))"

section \<open>Registration and lookup\<close>

definition registerWorkbenchContribution2 ::
  "string option \<Rightarrow> ctor \<Rightarrow> WorkbenchContributionInstantiation \<Rightarrow> registry \<Rightarrow> registry" where
  "registerWorkbenchContribution2 i k instantiation s =
     (let contribution = \<lparr>reg_id = i, reg_ctor = k\<rparr>
      in if instantiation \<noteq> Lazy \<and> started s
            \<and> phase_num (lifecyclePhase s) \<ge> inst_num instantiation
         then (case toPhase instantiation of
                 Some ph \<Rightarrow> safeCreateContribution contribution ph s
               | None \<Rightarrow> s)
         else
           (let s1 = (if instantiation \<noteq> Lazy then
                        (case toPhase instantiation of
                           Some ph \<Rightarrow>
                             s\<lparr>contributionsByPhase := (contributionsByPhase s)
                                 (ph \<mapsto> (case contributionsByPhase s ph of
                                            None \<Rightarrow> [] | Some cs \<Rightarrow> cs) @ [contribution])\<rparr>
                         | None \<Rightarrow> s)
                      else s)
            in (case i of
                  Some j \<Rightarrow>
                    if contributionsById s1 j = None
                    then s1\<lparr>contributionsById := (contributionsById s1)(j \<mapsto> contribution)\<rparr>
                    else emit (ConsoleError j) s1
                | None \<Rightarrow> s1)))"

definition registerWorkbenchContribution :: "ctor \<Rightarrow> LifecyclePhase \<Rightarrow> registry \<Rightarrow> registry" where
  "registerWorkbenchContribution k ph s =
     registerWorkbenchContribution2 None k (toInstantiation ph) s"

definition getWorkbenchContribution ::
  "string \<Rightarrow> registry \<Rightarrow> (error + IWorkbenchContribution) \<times> registry" where
  "getWorkbenchContribution i s =
     (case instancesById s i of
        Some inst \<Rightarrow> (Inr inst, s)
      | None \<Rightarrow>
          if \<not> started s then (Inl (NotStarted i), s)
          else (case contributionsById s i of
                  None \<Rightarrow> (Inl (UnknownContribution i), s)
                | Some contribution \<Rightarrow>
                    (let s1 = (if phase_num (lifecyclePhase s) < phase_num Restored
                               then emit (LogWarnLazyEarly i) s else s);
                         s2 = safeCreateContribution contribution (lifecyclePhase s1) s1
                     in (case instancesById s2 i of
                           None \<Rightarrow> (Inl (FailedToCreate i), s2)
                         | Some inst \<Rightarrow> (Inr inst, s2)))))"

section \<open>The phase driver and the idle runner\<close>

text \<open>
  The loop of \<open>instantiateSome\<close>. \<open>idle q\<close> is what the \<open>q\<close>-th call of
  \<open>idle.timeRemaining()\<close> in this slice returns. The result is the value of \<open>i\<close> when
  the loop is left.
\<close>

function instantiateSome_loop ::
  "IWorkbenchContributionRegistration list \<Rightarrow> LifecyclePhase \<Rightarrow> nat \<Rightarrow> (nat \<Rightarrow> real)
     \<Rightarrow> nat \<Rightarrow> nat \<Rightarrow> registry \<Rightarrow> nat \<times> registry" where
  "instantiateSome_loop cs ph forcedTimeout idle q i s =
     (if i < length cs then
        (let s1 = safeCreateContribution (cs ! i) ph s
         in if idle q < 1
            then (Suc i, runWhenGlobalIdle
                           \<lparr>task_contributions = cs, task_i = Suc i,
                            task_phase = ph, task_timeout = forcedTimeout\<rparr> s1)
            else instantiateSome_loop cs ph forcedTimeout idle (Suc q) (Suc i) s1)
      else (i, s))"
  by pat_completeness auto
termination
  by (relation "measure (\<lambda>(cs, ph, t, idle, q, i, s). length cs - i)") auto

definition instantiateSome :: "idle_task \<Rightarrow> (nat \<Rightarrow> real) \<Rightarrow> registry \<Rightarrow> registry" where
  "instantiateSome t idle s =
     (let r = instantiateSome_loop (task_contributions t) (task_phase t) (task_timeout t)
                idle 0 (task_i t) s
      in if fst r = length (task_contributions t) then
           (let s1 = mark (DidCreateWorkbenchContributions (task_phase t)) (snd r)
            in if task_phase t = Restored then complete s1 else s1)
         else snd r)"

definition doInstantiateWhenIdle ::
  "IWorkbenchContributionRegistration list \<Rightarrow> LifecyclePhase \<Rightarrow> registry \<Rightarrow> registry" where
  "doInstantiateWhenIdle cs ph s =
     runWhenGlobalIdle
       \<lparr>task_contributions = cs, task_i = 0, task_phase = ph,
        task_timeout = (if ph = Eventually then 3000 else 500)\<rparr>
       (mark (WillCreateWorkbenchContributions ph) s)"

text \<open>
  \<open>doInstantiateByPhase\<close> up to its first suspension: for \<open>Eventually\<close> the call stops at
  \<open>await this.pendingRestoredContributions.p\<close> holding \<open>contributions\<close>; the rest of it
  is \<open>resumeEventually\<close>.
\<close>

definition doInstantiateByPhase :: "LifecyclePhase \<Rightarrow> registry \<Rightarrow> registry" where
  "doInstantiateByPhase ph s =
     (case contributionsByPhase s ph of
        None \<Rightarrow> s
      | Some cs \<Rightarrow>
          (let s1 = s\<lparr>contributionsByPhase := (contributionsByPhase s)(ph := None)\<rparr>
           in if ph = Starting \<or> ph = Ready then
                mark (DidCreateWorkbenchContributions ph)
                  (foldl (\<lambda>s' c. safeCreateContribution c ph s')
                     (mark (WillCreateWorkbenchContributions ph) s1) cs)
              else if ph = Eventually then
                s1\<lparr>awaitingRestored := awaitingRestored s1 @ [cs]\<rparr>
              else doInstantiateWhenIdle cs ph s1))"

definition resumeEventually :: "nat \<Rightarrow> registry \<Rightarrow> registry" where
  "resumeEventually k s =
     doInstantiateWhenIdle (awaitingRestored s ! k) Eventually
       (s\<lparr>awaitingRestored := take k (awaitingRestored s) @ drop (Suc k) (awaitingRestored s)\<rparr>)"

definition instantiateByPhase :: "LifecyclePhase \<Rightarrow> registry \<Rightarrow> registry" where
  "instantiateByPhase ph s =
     (if phase_num (lifecyclePhase s) \<ge> phase_num ph then doInstantiateByPhase ph s
      else s\<lparr>phaseWaiters := phaseWaiters s @ [ph]\<rparr>)"

definition start :: "registry \<Rightarrow> registry" where
  "start s =
     foldl (\<lambda>s' ph. instantiateByPhase ph s') (s\<lparr>started := True\<rparr>)
       [Starting, Ready, Restored, Eventually]"

section \<open>Executions\<close>

text \<open>
  One turn of the single thread of control: a call of the public interface, the
  lifecycle service advancing its phase, or one suspended continuation running.
\<close>

datatype event =
  Register2 "string option" ctor WorkbenchContributionInstantiation
| Register ctor LifecyclePhase
| Get string
| Start
| SetPhase LifecyclePhase
| PhaseReached nat
| RestoredAwaited nat
| IdleSlice nat "nat \<Rightarrow> real"

text \<open>
  Modelled from the spec: the lifecycle service (not among the sources) only moves its
  phase upwards, and a continuation of \<open>when(phase)\<close> runs once that phase is reached.
  A continuation of the \<open>await\<close> runs once the promise is resolved; an idle callback
  runs whenever the scheduler picks it.
\<close>

fun enabled :: "event \<Rightarrow> registry \<Rightarrow> bool" where
  "enabled (SetPhase ph) s = (phase_num (lifecyclePhase s) < phase_num ph)"
| "enabled (PhaseReached k) s =
     (k < length (phaseWaiters s)
      \<and> phase_num (phaseWaiters s ! k) \<le> phase_num (lifecyclePhase s))"
| "enabled (RestoredAwaited k) s =
     (k < length (awaitingRestored s) \<and> whenRestored s = Resolved)"
| "enabled (IdleSlice k idle) s = (k < length (idleQueue s))"
| "enabled _ s = True"

fun exec :: "event \<Rightarrow> registry \<Rightarrow> registry" where
  "exec (Register2 i k instantiation) s = registerWorkbenchContribution2 i k instantiation s"
| "exec (Register k ph) s = registerWorkbenchContribution k ph s"
| "exec (Get i) s = snd (getWorkbenchContribution i s)"
| "exec Start s = start s"
| "exec (SetPhase ph) s = s\<lparr>lifecyclePhase := ph\<rparr>"
| "exec (PhaseReached k) s =
     doInstantiateByPhase (phaseWaiters s ! k)
       (s\<lparr>phaseWaiters := take k (phaseWaiters s) @ drop (Suc k) (phaseWaiters s)\<rparr>)"
| "exec (RestoredAwaited k) s = resumeEventually k s"
| "exec (IdleSlice k idle) s =
     instantiateSome (idleQueue s ! k) idle
       (s\<lparr>idleQueue := take k (idleQueue s) @ drop (Suc k) (idleQueue s)\<rparr>)"

definition step :: "event \<Rightarrow> registry \<Rightarrow> registry" where
  "step e s = (if enabled e s then exec e s else s)"

definition run :: "event list \<Rightarrow> registry \<Rightarrow> registry" where
  "run es s = foldl (\<lambda>s' e. step e s') s es"

section \<open>Observations on a state\<close>

text \<open>
  The pending sequence of a phase (empty when the phase has no entry), the descriptors
  whose factory has been called so far, in order, and the ones among them that carry a
  given id.
\<close>

definition pending :: "registry \<Rightarrow> LifecyclePhase \<Rightarrow> IWorkbenchContributionRegistration list" where
  "pending s ph = (case contributionsByPhase s ph of None \<Rightarrow> [] | Some cs \<Rightarrow> cs)"

fun created :: "effect \<Rightarrow> IWorkbenchContributionRegistration list" where
  "created (CreateInstance r) = [r]"
| "created _ = []"

definition factory_calls :: "registry \<Rightarrow> IWorkbenchContributionRegistration list" where
  "factory_calls s = concat (map created (trace s))"

definition factory_calls_for :: "string \<Rightarrow> registry \<Rightarrow> IWorkbenchContributionRegistration list" where
  "factory_calls_for i s = filter (\<lambda>r. reg_id r = Some i) (factory_calls s)"

text \<open>
  What one call of \<open>safeCreateContribution\<close> that passes its first check hands to the
  collaborators: \<open>throws\<close> and \<open>time\<close> are the outcome and the duration of the
  factory call, \<open>built\<close> is \<open>environmentService.isBuilt\<close>.
\<close>

definition warn_threshold :: "LifecyclePhase \<Rightarrow> int" where
  "warn_threshold ph = (if phase_num ph < phase_num Restored then 20 else 100)"

definition create_effects ::
  "IWorkbenchContributionRegistration \<Rightarrow> LifecyclePhase \<Rightarrow> bool \<Rightarrow> int \<Rightarrow> bool \<Rightarrow> effect list" where
  "create_effects c ph throws time built =
     (case reg_id c of Some i \<Rightarrow> [Mark (WillCreateWorkbenchContribution ph i)] | None \<Rightarrow> [])
     @ [CreateInstance c]
     @ (if throws then [LogError (display_name c)] else [])
     @ (case reg_id c of Some i \<Rightarrow> [Mark (DidCreateWorkbenchContribution ph i)] | None \<Rightarrow> [])
     @ (if (reg_id c \<noteq> None \<or> \<not> built) \<and> time > warn_threshold ph
        then [LogWarnSlow (display_name c) time] else [])"

text \<open>The first check of \<open>safeCreateContribution\<close>: the id already has an instance.\<close>

definition guarded :: "IWorkbenchContributionRegistration \<Rightarrow> registry \<Rightarrow> bool" where
  "guarded c s = (case reg_id c of Some i \<Rightarrow> instancesById s i \<noteq> None | None \<Rightarrow> False)"

text \<open>A sequence of descriptors instantiated in order, one after the other.\<close>

definition instantiateAll ::
  "IWorkbenchContributionRegistration list \<Rightarrow> LifecyclePhase \<Rightarrow> registry \<Rightarrow> registry" where
  "instantiateAll cs ph s = foldl (\<lambda>s' c. safeCreateContribution c ph s') s cs"

text \<open>
  \<open>first_stop idle q n\<close>: when the reports \<open>idle q\<close>, \<open>idle (q + 1)\<close>, ... are read
  one after each of \<open>n\<close> descriptors, the number of descriptors after which the first
  report below 1 arrives; \<open>None\<close> when none of the \<open>n\<close> reports is below 1.
\<close>

fun first_stop :: "(nat \<Rightarrow> real) \<Rightarrow> nat \<Rightarrow> nat \<Rightarrow> nat option" where
  "first_stop idle q 0 = None"
| "first_stop idle q (Suc n) =
     (if idle q < 1 then Some 1 else map_option Suc (first_stop idle (Suc q) n))"

text \<open>The end of a batch: the closing mark and, for \<open>Restored\<close>, the completion.\<close>

definition finish_batch :: "LifecyclePhase \<Rightarrow> registry \<Rightarrow> registry" where
  "finish_batch ph s =
     (let s1 = mark (DidCreateWorkbenchContributions ph) s
      in if ph = Restored then complete s1 else s1)"

text \<open>Every descriptor of the by-id index is stored under its own id.\<close>

definition byId_wf :: "registry \<Rightarrow> bool" where
  "byId_wf s = (\<forall>j r. contributionsById s j = Some r \<longrightarrow> reg_id r = Some j)"

text \<open>
  Every scheduled idle callback of the \<open>Eventually\<close> batch was scheduled after the
  promise was resolved.
\<close>

definition eventually_gated :: "registry \<Rightarrow> bool" where
  "eventually_gated s =
     (\<forall>t \<in> set (idleQueue s). task_phase t = Eventually \<longrightarrow> whenRestored s = Resolved)"

text \<open>
  Two states hold the same registry data: the by-id index, the instance cache, the
  timing log, the factory calls made so far, and the world the next factory call meets.
\<close>

definition same_data :: "registry \<Rightarrow> registry \<Rightarrow> bool" where
  "same_data s s' =
     (instancesById s = instancesById s' \<and> contributionsById s = contributionsById s'
      \<and> timingsByPhase s = timingsByPhase s' \<and> factory_calls s = factory_calls s'
      \<and> factoryCalls s = factoryCalls s' \<and> isBuilt s = isBuilt s'
      \<and> createThrows s = createThrows s' \<and> createElapsed s = createElapsed s')"

text \<open>
  An idle scheduler: as long as a callback is scheduled it runs the first one, the
  \<open>n\<close>-th slice with the deadline \<open>ds n\<close>. The result is the number of the next slice and
  the state when no callback is left; \<open>None\<close> when the fuel runs out before.
\<close>

fun drain :: "nat \<Rightarrow> (nat \<Rightarrow> nat \<Rightarrow> real) \<Rightarrow> nat \<Rightarrow> registry \<Rightarrow> (nat \<times> registry) option" where
  "drain 0 ds n s = (if idleQueue s = [] then Some (n, s) else None)"
| "drain (Suc fuel) ds n s =
     (if idleQueue s = [] then Some (n, s)
      else drain fuel ds (Suc n) (step (IdleSlice 0 (ds n)) s))"

text \<open>The first \<open>j\<close> slices of that scheduler, starting with slice \<open>n\<close>.\<close>

definition slices :: "(nat \<Rightarrow> nat \<Rightarrow> real) \<Rightarrow> nat \<Rightarrow> nat \<Rightarrow> registry \<Rightarrow> registry" where
  "slices ds n j s = run (map (\<lambda>a. IdleSlice 0 (ds (n + a))) [0..<j]) s"

text \<open>
  The Restored phase has been dispatched without a pending sequence: the registry is
  started in a phase from \<open>Restored\<close> on, the by-phase index has no entry for
  \<open>Restored\<close>, no idle callback of a \<open>Restored\<close> batch is scheduled, and the promise is
  pending.
\<close>

definition restored_skipped :: "registry \<Rightarrow> bool" where
  "restored_skipped s =
     (started s \<and> phase_num Restored \<le> phase_num (lifecyclePhase s)
      \<and> contributionsByPhase s Restored = None
      \<and> Restored \<notin> task_phase ` set (idleQueue s)
      \<and> whenRestored s = Pending)"

text \<open>The event registers a contribution under the id \<open>i\<close>.\<close>

fun registers :: "string \<Rightarrow> event \<Rightarrow> bool" where
  "registers i (Register2 j k inst) = (j = Some i)"
| "registers i _ = False"

text \<open>
  The descriptors that wait for a phase dispatch: those in the by-phase index, those
  held by a dispatch suspended on the promise, and those of the scheduled idle
  callbacks.
\<close>

definition scheduled :: "registry \<Rightarrow> IWorkbenchContributionRegistration set" where
  "scheduled s =
     (\<Union>ph. set (pending s ph))
     \<union> (\<Union>cs \<in> set (awaitingRestored s). set cs)
     \<union> (\<Union>t \<in> set (idleQueue s). set (task_contributions t))"

text \<open>The events of phase progression: everything but registrations and lookups.\<close>

fun progression :: "event \<Rightarrow> bool" where
  "progression (Register2 i k inst) = False"
| "progression (Register k ph) = False"
| "progression (Get i) = False"
| "progression _ = True"

section \<open>Properties of the contribution factory\<close>

lemma toPhase_Some: "inst \<noteq> Lazy \<Longrightarrow> \<exists>ph. toPhase inst = Some ph"
  by (cases inst) simp_all

subsection \<open>safeCreateContribution\<close>

lemma createInstance_simps [simp]:
  "fst (createInstance k s)
     = (if createThrows s (factoryCalls s) then None else Some (Instance k (factoryCalls s)))"
  "snd (createInstance k s) = s\<lparr>factoryCalls := Suc (factoryCalls s)\<rparr>"
  by (simp_all add: createInstance_def Let_def)

lemma tryCreate_anonymous:
  "reg_id c = None \<Longrightarrow>
   tryCreate c ph s =
     s\<lparr>trace := trace s @ [CreateInstance c]
                 @ (if createThrows s (factoryCalls s) then [LogError (display_name c)] else []),
       factoryCalls := Suc (factoryCalls s)\<rparr>"
  by (simp add: tryCreate_def Let_def emit_def)

lemma tryCreate_identified:
  "reg_id c = Some i \<Longrightarrow>
   tryCreate c ph s =
     (if createThrows s (factoryCalls s) then
        s\<lparr>trace := trace s @ [Mark (WillCreateWorkbenchContribution ph i), CreateInstance c,
                              LogError (display_name c), Mark (DidCreateWorkbenchContribution ph i)],
          factoryCalls := Suc (factoryCalls s)\<rparr>
      else
        s\<lparr>contributionsById := (contributionsById s)(i := None),
          instancesById := (instancesById s)(i \<mapsto> Instance (reg_ctor c) (factoryCalls s)),
          trace := trace s @ [Mark (WillCreateWorkbenchContribution ph i), CreateInstance c,
                              Mark (DidCreateWorkbenchContribution ph i)],
          factoryCalls := Suc (factoryCalls s)\<rparr>)"
  by (simp add: tryCreate_def Let_def emit_def mark_def)

lemma recordTiming_anonymous:
  "reg_id c = None \<Longrightarrow>
   recordTiming c ph n s =
     (if \<not> isBuilt s \<and> createElapsed s n > warn_threshold ph
      then s\<lparr>trace := trace s @ [LogWarnSlow (display_name c) (createElapsed s n)]\<rparr> else s)"
  by (simp add: recordTiming_def Let_def emit_def warn_threshold_def
      BLOCK_BEFORE_RESTORE_WARN_THRESHOLD_def BLOCK_AFTER_RESTORE_WARN_THRESHOLD_def)

lemma recordTiming_identified:
  "reg_id c = Some i \<Longrightarrow>
   recordTiming c ph n s =
     s\<lparr>timingsByPhase := (timingsByPhase s)
          (ph \<mapsto> (case timingsByPhase s ph of None \<Rightarrow> [] | Some ts \<Rightarrow> ts) @ [(i, createElapsed s n)]),
       trace := trace s @ (if createElapsed s n > warn_threshold ph
                           then [LogWarnSlow (display_name c) (createElapsed s n)] else [])\<rparr>"
  by (simp add: recordTiming_def Let_def emit_def warn_threshold_def
      BLOCK_BEFORE_RESTORE_WARN_THRESHOLD_def BLOCK_AFTER_RESTORE_WARN_THRESHOLD_def)

lemma safeCreate_guarded: "guarded c s \<Longrightarrow> safeCreateContribution c ph s = s"
  by (simp add: safeCreateContribution_def guarded_def)

lemma safeCreate_unfold:
  assumes "\<not> guarded c s"
  shows "safeCreateContribution c ph s =
     s\<lparr>contributionsById :=
         (case reg_id c of
            Some i \<Rightarrow> if createThrows s (factoryCalls s) then contributionsById s
                      else (contributionsById s)(i := None)
          | None \<Rightarrow> contributionsById s),
       instancesById :=
         (case reg_id c of
            Some i \<Rightarrow> if createThrows s (factoryCalls s) then instancesById s
                      else (instancesById s)(i \<mapsto> Instance (reg_ctor c) (factoryCalls s))
          | None \<Rightarrow> instancesById s),
       timingsByPhase :=
         (case reg_id c of
            Some i \<Rightarrow> (timingsByPhase s)
              (ph \<mapsto> (case timingsByPhase s ph of None \<Rightarrow> [] | Some ts \<Rightarrow> ts)
                       @ [(i, createElapsed s (factoryCalls s))])
          | None \<Rightarrow> timingsByPhase s),
       trace := trace s @ create_effects c ph (createThrows s (factoryCalls s))
                            (createElapsed s (factoryCalls s)) (isBuilt s),
       factoryCalls := Suc (factoryCalls s)\<rparr>"
proof (cases "reg_id c")
  case None
  with assms show ?thesis
    by (simp add: safeCreateContribution_def guarded_def tryCreate_anonymous
        recordTiming_anonymous create_effects_def)
next
  case (Some i)
  with assms show ?thesis
    by (simp add: safeCreateContribution_def guarded_def tryCreate_identified
        recordTiming_identified create_effects_def)
qed

lemma safeCreate_frame [simp]:
  "started (safeCreateContribution c ph s) = started s"
  "lifecyclePhase (safeCreateContribution c ph s) = lifecyclePhase s"
  "isBuilt (safeCreateContribution c ph s) = isBuilt s"
  "contributionsByPhase (safeCreateContribution c ph s) = contributionsByPhase s"
  "whenRestored (safeCreateContribution c ph s) = whenRestored s"
  "phaseWaiters (safeCreateContribution c ph s) = phaseWaiters s"
  "awaitingRestored (safeCreateContribution c ph s) = awaitingRestored s"
  "idleQueue (safeCreateContribution c ph s) = idleQueue s"
  "createThrows (safeCreateContribution c ph s) = createThrows s"
  "createElapsed (safeCreateContribution c ph s) = createElapsed s"
  by (cases "guarded c s"; simp add: safeCreate_guarded safeCreate_unfold)+

lemma safeCreate_byId_shrinks:
  "contributionsById (safeCreateContribution c ph s) j = Some r \<Longrightarrow> contributionsById s j = Some r"
  by (cases "guarded c s")
     (auto simp: safeCreate_guarded safeCreate_unfold split: option.splits if_splits)

lemma safeCreate_instances_mono:
  "instancesById s i = Some v \<Longrightarrow> instancesById (safeCreateContribution c ph s) i = Some v"
  by (cases "guarded c s")
     (auto simp: safeCreate_guarded safeCreate_unfold guarded_def split: option.splits)

lemma created_create_effects [simp]:
  "concat (map created (create_effects c ph thr t b)) = [c]"
  by (simp add: create_effects_def split: option.splits)

lemma safeCreate_factory_calls:
  "factory_calls (safeCreateContribution c ph s)
     = factory_calls s @ (if guarded c s then [] else [c])"
  by (cases "guarded c s")
     (simp_all add: safeCreate_guarded safeCreate_unfold factory_calls_def)

lemma safeCreate_calls_for:
  "instancesById s i = Some v \<Longrightarrow>
     factory_calls_for i (safeCreateContribution c ph s) = factory_calls_for i s"
  by (auto simp: factory_calls_for_def safeCreate_factory_calls guarded_def)

subsection \<open>Collaborators\<close>

lemma emit_frame [simp]:
  "started (emit e s) = started s"
  "lifecyclePhase (emit e s) = lifecyclePhase s"
  "isBuilt (emit e s) = isBuilt s"
  "contributionsByPhase (emit e s) = contributionsByPhase s"
  "contributionsById (emit e s) = contributionsById s"
  "instancesById (emit e s) = instancesById s"
  "timingsByPhase (emit e s) = timingsByPhase s"
  "whenRestored (emit e s) = whenRestored s"
  "phaseWaiters (emit e s) = phaseWaiters s"
  "awaitingRestored (emit e s) = awaitingRestored s"
  "idleQueue (emit e s) = idleQueue s"
  "factoryCalls (emit e s) = factoryCalls s"
  "createThrows (emit e s) = createThrows s"
  "createElapsed (emit e s) = createElapsed s"
  "trace (emit e s) = trace s @ [e]"
  by (simp_all add: emit_def)

lemma emit_factory_calls [simp]: "factory_calls (emit e s) = factory_calls s @ created e"
  by (simp add: factory_calls_def)

lemma mark_frame [simp]:
  "started (mark l s) = started s"
  "lifecyclePhase (mark l s) = lifecyclePhase s"
  "isBuilt (mark l s) = isBuilt s"
  "contributionsByPhase (mark l s) = contributionsByPhase s"
  "contributionsById (mark l s) = contributionsById s"
  "instancesById (mark l s) = instancesById s"
  "timingsByPhase (mark l s) = timingsByPhase s"
  "whenRestored (mark l s) = whenRestored s"
  "phaseWaiters (mark l s) = phaseWaiters s"
  "awaitingRestored (mark l s) = awaitingRestored s"
  "idleQueue (mark l s) = idleQueue s"
  "factoryCalls (mark l s) = factoryCalls s"
  "createThrows (mark l s) = createThrows s"
  "createElapsed (mark l s) = createElapsed s"
  "trace (mark l s) = trace s @ [Mark l]"
  "factory_calls (mark l s) = factory_calls s"
  by (simp_all add: mark_def)

lemma runWhenGlobalIdle_frame [simp]:
  "started (runWhenGlobalIdle t s) = started s"
  "lifecyclePhase (runWhenGlobalIdle t s) = lifecyclePhase s"
  "isBuilt (runWhenGlobalIdle t s) = isBuilt s"
  "contributionsByPhase (runWhenGlobalIdle t s) = contributionsByPhase s"
  "contributionsById (runWhenGlobalIdle t s) = contributionsById s"
  "instancesById (runWhenGlobalIdle t s) = instancesById s"
  "timingsByPhase (runWhenGlobalIdle t s) = timingsByPhase s"
  "whenRestored (runWhenGlobalIdle t s) = whenRestored s"
  "phaseWaiters (runWhenGlobalIdle t s) = phaseWaiters s"
  "awaitingRestored (runWhenGlobalIdle t s) = awaitingRestored s"
  "idleQueue (runWhenGlobalIdle t s) = idleQueue s @ [t]"
  "factoryCalls (runWhenGlobalIdle t s) = factoryCalls s"
  "createThrows (runWhenGlobalIdle t s) = createThrows s"
  "createElapsed (runWhenGlobalIdle t s) = createElapsed s"
  "trace (runWhenGlobalIdle t s) = trace s @ [RunWhenGlobalIdle (task_timeout t)]"
  "factory_calls (runWhenGlobalIdle t s) = factory_calls s"
  by (simp_all add: runWhenGlobalIdle_def factory_calls_def emit_def)

lemma complete_frame [simp]:
  "started (complete s) = started s"
  "lifecyclePhase (complete s) = lifecyclePhase s"
  "isBuilt (complete s) = isBuilt s"
  "contributionsByPhase (complete s) = contributionsByPhase s"
  "contributionsById (complete s) = contributionsById s"
  "instancesById (complete s) = instancesById s"
  "timingsByPhase (complete s) = timingsByPhase s"
  "whenRestored (complete s) = (if whenRestored s = Pending then Resolved else whenRestored s)"
  "phaseWaiters (complete s) = phaseWaiters s"
  "awaitingRestored (complete s) = awaitingRestored s"
  "idleQueue (complete s) = idleQueue s"
  "factoryCalls (complete s) = factoryCalls s"
  "createThrows (complete s) = createThrows s"
  "createElapsed (complete s) = createElapsed s"
  "trace (complete s) = trace s @ [Complete]"
  "factory_calls (complete s) = factory_calls s"
  by (simp_all add: complete_def factory_calls_def emit_def)

subsection \<open>Instantiating a sequence in order\<close>

lemma instantiateAll_simps [simp]:
  "instantiateAll [] ph s = s"
  "instantiateAll (c # cs) ph s = instantiateAll cs ph (safeCreateContribution c ph s)"
  by (simp_all add: instantiateAll_def)

lemma instantiateAll_append:
  "instantiateAll (cs @ ds) ph s = instantiateAll ds ph (instantiateAll cs ph s)"
  by (simp add: instantiateAll_def)

lemma instantiateAll_frame [simp]:
  "started (instantiateAll cs ph s) = started s"
  "lifecyclePhase (instantiateAll cs ph s) = lifecyclePhase s"
  "isBuilt (instantiateAll cs ph s) = isBuilt s"
  "contributionsByPhase (instantiateAll cs ph s) = contributionsByPhase s"
  "whenRestored (instantiateAll cs ph s) = whenRestored s"
  "phaseWaiters (instantiateAll cs ph s) = phaseWaiters s"
  "awaitingRestored (instantiateAll cs ph s) = awaitingRestored s"
  "idleQueue (instantiateAll cs ph s) = idleQueue s"
  "createThrows (instantiateAll cs ph s) = createThrows s"
  "createElapsed (instantiateAll cs ph s) = createElapsed s"
  by (induction cs arbitrary: s) simp_all

lemma instantiateAll_byId_shrinks:
  "contributionsById (instantiateAll cs ph s) j = Some r \<Longrightarrow> contributionsById s j = Some r"
  by (induction cs arbitrary: s) (auto dest: safeCreate_byId_shrinks)

lemma instantiateAll_instances_mono:
  "instancesById s i = Some v \<Longrightarrow> instancesById (instantiateAll cs ph s) i = Some v"
  by (induction cs arbitrary: s) (auto simp: safeCreate_instances_mono)

lemma instantiateAll_calls_for:
  "instancesById s i = Some v \<Longrightarrow>
     factory_calls_for i (instantiateAll cs ph s) = factory_calls_for i s"
  by (induction cs arbitrary: s) (auto simp: safeCreate_instances_mono safeCreate_calls_for)

subsection \<open>One idle slice\<close>

declare instantiateSome_loop.simps [simp del]

lemma first_stop_bounds: "first_stop idle q n = Some m \<Longrightarrow> 1 \<le> m \<and> m \<le> n"
  by (induction n arbitrary: q m) (auto split: if_splits)

lemma first_stop_None: "first_stop idle q n = None \<longleftrightarrow> (\<forall>m<n. \<not> idle (q + m) < 1)"
proof (induction n arbitrary: q)
  case 0
  show ?case by simp
next
  case (Suc n)
  have "(\<forall>m<Suc n. \<not> idle (q + m) < 1) \<longleftrightarrow> (\<not> idle q < 1 \<and> (\<forall>m<n. \<not> idle (Suc q + m) < 1))"
    by (auto simp: less_Suc_eq_0_disj)
  with Suc show ?case by simp
qed

lemma first_stop_Some:
  "first_stop idle q n = Some m \<Longrightarrow>
     idle (q + m - 1) < 1 \<and> (\<forall>k<m - 1. \<not> idle (q + k) < 1)"
proof (induction n arbitrary: q m)
  case 0
  then show ?case by simp
next
  case (Suc n)
  show ?case
  proof (cases "idle q < 1")
    case True
    with Suc.prems show ?thesis by simp
  next
    case False
    with Suc.prems obtain m' where m': "first_stop idle (Suc q) n = Some m'" "m = Suc m'"
      by auto
    from Suc.IH [OF m'(1)] have ih: "idle (Suc q + m' - 1) < 1"
      "\<And>k. k < m' - 1 \<Longrightarrow> \<not> idle (Suc q + k) < 1"
      by auto
    from first_stop_bounds [OF m'(1)] have "1 \<le> m'" by simp
    with ih(1) m'(2) have a: "idle (q + m - 1) < 1" by simp
    have b: "\<not> idle (q + k) < 1" if "k < m - 1" for k
    proof (cases k)
      case 0
      with False show ?thesis by simp
    next
      case (Suc k')
      with that m'(2) have "k' < m' - 1" by simp
      from ih(2) [OF this] Suc show ?thesis by simp
    qed
    from a b show ?thesis by blast
  qed
qed

lemma loop_result:
  "instantiateSome_loop cs ph T idle q i s =
     (case first_stop idle q (length cs - i) of
        Some m \<Rightarrow>
          (i + m,
           runWhenGlobalIdle
             \<lparr>task_contributions = cs, task_i = i + m, task_phase = ph, task_timeout = T\<rparr>
             (instantiateAll (take m (drop i cs)) ph s))
      | None \<Rightarrow> (i + (length cs - i), instantiateAll (drop i cs) ph s))"
proof (induction cs ph T idle q i s rule: instantiateSome_loop.induct)
  case (1 cs ph T idle q i s)
  show ?case
  proof (cases "i < length cs")
    case False
    then show ?thesis
      by (subst instantiateSome_loop.simps) simp
  next
    case True
    then obtain n where n: "length cs - i = Suc n" "length cs - Suc i = n"
      by (metis Suc_diff_Suc)
    from True have dr: "drop i cs = cs ! i # drop (Suc i) cs"
      by (simp add: Cons_nth_drop_Suc)
    show ?thesis
    proof (cases "idle q < 1")
      case stop: True
      with True n dr show ?thesis
        by (subst instantiateSome_loop.simps) (simp add: Let_def)
    next
      case go: False
      with True n dr "1.IH" [OF True refl go] show ?thesis
        by (subst instantiateSome_loop.simps)
           (auto simp: Let_def split: option.splits)
    qed
  qed
qed

lemma factory_calls_for_append_simps [simp]:
  "factory_calls_for i (emit e s) = factory_calls_for i s @ filter (\<lambda>r. reg_id r = Some i) (created e)"
  "factory_calls_for i (mark l s) = factory_calls_for i s"
  "factory_calls_for i (runWhenGlobalIdle t s) = factory_calls_for i s"
  "factory_calls_for i (complete s) = factory_calls_for i s"
  by (simp_all add: factory_calls_for_def)

lemma finish_batch_frame [simp]:
  "started (finish_batch ph s) = started s"
  "lifecyclePhase (finish_batch ph s) = lifecyclePhase s"
  "isBuilt (finish_batch ph s) = isBuilt s"
  "contributionsByPhase (finish_batch ph s) = contributionsByPhase s"
  "contributionsById (finish_batch ph s) = contributionsById s"
  "instancesById (finish_batch ph s) = instancesById s"
  "timingsByPhase (finish_batch ph s) = timingsByPhase s"
  "whenRestored (finish_batch ph s)
     = (if ph = Restored \<and> whenRestored s = Pending then Resolved else whenRestored s)"
  "phaseWaiters (finish_batch ph s) = phaseWaiters s"
  "awaitingRestored (finish_batch ph s) = awaitingRestored s"
  "idleQueue (finish_batch ph s) = idleQueue s"
  "factoryCalls (finish_batch ph s) = factoryCalls s"
  "createThrows (finish_batch ph s) = createThrows s"
  "createElapsed (finish_batch ph s) = createElapsed s"
  "trace (finish_batch ph s)
     = trace s @ Mark (DidCreateWorkbenchContributions ph) # (if ph = Restored then [Complete] else [])"
  "factory_calls (finish_batch ph s) = factory_calls s"
  "factory_calls_for i (finish_batch ph s) = factory_calls_for i s"
  by (simp_all add: finish_batch_def Let_def)

lemma instantiateSome_result:
  "instantiateSome t idle s =
     (case first_stop idle 0 (length (task_contributions t) - task_i t) of
        Some m \<Rightarrow>
          (let s1 = runWhenGlobalIdle (t\<lparr>task_i := task_i t + m\<rparr>)
                      (instantiateAll (take m (drop (task_i t) (task_contributions t)))
                         (task_phase t) s)
           in if task_i t + m = length (task_contributions t)
              then finish_batch (task_phase t) s1 else s1)
      | None \<Rightarrow>
          (let s1 = instantiateAll (drop (task_i t) (task_contributions t)) (task_phase t) s
           in if task_i t \<le> length (task_contributions t)
              then finish_batch (task_phase t) s1 else s1))"
proof -
  have t: "\<And>j. \<lparr>task_contributions = task_contributions t, task_i = j,
             task_phase = task_phase t, task_timeout = task_timeout t\<rparr> = t\<lparr>task_i := j\<rparr>"
    by simp
  show ?thesis
    by (auto simp: instantiateSome_def loop_result finish_batch_def Let_def t
        split: option.splits)
qed

lemma instantiateSome_frame [simp]:
  "started (instantiateSome t idle s) = started s"
  "lifecyclePhase (instantiateSome t idle s) = lifecyclePhase s"
  "isBuilt (instantiateSome t idle s) = isBuilt s"
  "contributionsByPhase (instantiateSome t idle s) = contributionsByPhase s"
  "phaseWaiters (instantiateSome t idle s) = phaseWaiters s"
  "awaitingRestored (instantiateSome t idle s) = awaitingRestored s"
  "createThrows (instantiateSome t idle s) = createThrows s"
  "createElapsed (instantiateSome t idle s) = createElapsed s"
  by (simp_all add: instantiateSome_result Let_def split: option.splits)

lemma instantiateSome_whenRestored:
  "whenRestored (instantiateSome t idle s) = whenRestored s
   \<or> (task_phase t = Restored \<and> whenRestored s = Pending
      \<and> whenRestored (instantiateSome t idle s) = Resolved)"
  by (simp add: instantiateSome_result Let_def split: option.splits)

lemma instantiateSome_idleQueue:
  "idleQueue (instantiateSome t idle s) = idleQueue s
   \<or> (\<exists>j. idleQueue (instantiateSome t idle s) = idleQueue s @ [t\<lparr>task_i := j\<rparr>])"
  by (auto simp: instantiateSome_result Let_def split: option.splits)

lemma instantiateSome_byId_shrinks:
  "contributionsById (instantiateSome t idle s) j = Some r \<Longrightarrow> contributionsById s j = Some r"
  by (auto simp: instantiateSome_result Let_def split: option.splits if_splits
      dest: instantiateAll_byId_shrinks)

lemma instantiateSome_instances_mono:
  "instancesById s i = Some v \<Longrightarrow> instancesById (instantiateSome t idle s) i = Some v"
  by (simp add: instantiateSome_result Let_def instantiateAll_instances_mono split: option.splits)

lemma instantiateSome_calls_for:
  "instancesById s i = Some v \<Longrightarrow>
     factory_calls_for i (instantiateSome t idle s) = factory_calls_for i s"
  by (simp add: instantiateSome_result Let_def instantiateAll_calls_for split: option.splits)

subsection \<open>Dispatching a phase\<close>

lemma doInstantiateWhenIdle_frame [simp]:
  "started (doInstantiateWhenIdle cs ph s) = started s"
  "lifecyclePhase (doInstantiateWhenIdle cs ph s) = lifecyclePhase s"
  "isBuilt (doInstantiateWhenIdle cs ph s) = isBuilt s"
  "contributionsByPhase (doInstantiateWhenIdle cs ph s) = contributionsByPhase s"
  "contributionsById (doInstantiateWhenIdle cs ph s) = contributionsById s"
  "instancesById (doInstantiateWhenIdle cs ph s) = instancesById s"
  "timingsByPhase (doInstantiateWhenIdle cs ph s) = timingsByPhase s"
  "whenRestored (doInstantiateWhenIdle cs ph s) = whenRestored s"
  "phaseWaiters (doInstantiateWhenIdle cs ph s) = phaseWaiters s"
  "awaitingRestored (doInstantiateWhenIdle cs ph s) = awaitingRestored s"
  "idleQueue (doInstantiateWhenIdle cs ph s)
     = idleQueue s @ [\<lparr>task_contributions = cs, task_i = 0, task_phase = ph,
                       task_timeout = (if ph = Eventually then 3000 else 500)\<rparr>]"
  "factoryCalls (doInstantiateWhenIdle cs ph s) = factoryCalls s"
  "createThrows (doInstantiateWhenIdle cs ph s) = createThrows s"
  "createElapsed (doInstantiateWhenIdle cs ph s) = createElapsed s"
  "trace (doInstantiateWhenIdle cs ph s)
     = trace s @ [Mark (WillCreateWorkbenchContributions ph),
                  RunWhenGlobalIdle (if ph = Eventually then 3000 else 500)]"
  "factory_calls (doInstantiateWhenIdle cs ph s) = factory_calls s"
  "factory_calls_for i (doInstantiateWhenIdle cs ph s) = factory_calls_for i s"
  by (simp_all add: doInstantiateWhenIdle_def)

lemma doInstantiateByPhase_result:
  "doInstantiateByPhase ph s =
     (case contributionsByPhase s ph of
        None \<Rightarrow> s
      | Some cs \<Rightarrow>
          (let s1 = s\<lparr>contributionsByPhase := (contributionsByPhase s)(ph := None)\<rparr>
           in case ph of
                Starting \<Rightarrow> mark (DidCreateWorkbenchContributions ph)
                  (instantiateAll cs ph (mark (WillCreateWorkbenchContributions ph) s1))
              | Ready \<Rightarrow> mark (DidCreateWorkbenchContributions ph)
                  (instantiateAll cs ph (mark (WillCreateWorkbenchContributions ph) s1))
              | Restored \<Rightarrow> doInstantiateWhenIdle cs ph s1
              | Eventually \<Rightarrow> s1\<lparr>awaitingRestored := awaitingRestored s1 @ [cs]\<rparr>))"
  by (cases ph) (simp_all add: doInstantiateByPhase_def instantiateAll_def Let_def split: option.splits)

lemma doInstantiateByPhase_frame [simp]:
  "started (doInstantiateByPhase ph s) = started s"
  "lifecyclePhase (doInstantiateByPhase ph s) = lifecyclePhase s"
  "isBuilt (doInstantiateByPhase ph s) = isBuilt s"
  "contributionsByPhase (doInstantiateByPhase ph s) = (contributionsByPhase s)(ph := None)"
  "whenRestored (doInstantiateByPhase ph s) = whenRestored s"
  "phaseWaiters (doInstantiateByPhase ph s) = phaseWaiters s"
  "createThrows (doInstantiateByPhase ph s) = createThrows s"
  "createElapsed (doInstantiateByPhase ph s) = createElapsed s"
  by (cases ph; auto simp: doInstantiateByPhase_result Let_def split: option.splits)+

lemma doInstantiateByPhase_idleQueue:
  "idleQueue (doInstantiateByPhase ph s) =
     idleQueue s @ (case contributionsByPhase s ph of
                      None \<Rightarrow> []
                    | Some cs \<Rightarrow> if ph = Restored
                        then [\<lparr>task_contributions = cs, task_i = 0, task_phase = Restored,
                               task_timeout = 500\<rparr>]
                        else [])"
  by (cases ph) (simp_all add: doInstantiateByPhase_result Let_def split: option.splits)

lemma doInstantiateByPhase_byId_shrinks:
  "contributionsById (doInstantiateByPhase ph s) j = Some r \<Longrightarrow> contributionsById s j = Some r"
  by (cases ph)
     (auto simp: doInstantiateByPhase_result Let_def split: option.splits
       dest!: instantiateAll_byId_shrinks)

lemma doInstantiateByPhase_instances_mono:
  "instancesById s i = Some v \<Longrightarrow> instancesById (doInstantiateByPhase ph s) i = Some v"
  by (cases ph)
     (simp_all add: doInstantiateByPhase_result Let_def instantiateAll_instances_mono
       split: option.splits)

lemma factory_calls_for_byPhase_update [simp]:
  "factory_calls_for i (s\<lparr>contributionsByPhase := m\<rparr>) = factory_calls_for i s"
  "factory_calls_for i (s\<lparr>awaitingRestored := a\<rparr>) = factory_calls_for i s"
  "factory_calls_for i (s\<lparr>phaseWaiters := w\<rparr>) = factory_calls_for i s"
  "factory_calls_for i (s\<lparr>idleQueue := q\<rparr>) = factory_calls_for i s"
  "factory_calls_for i (s\<lparr>started := b\<rparr>) = factory_calls_for i s"
  "factory_calls_for i (s\<lparr>lifecyclePhase := p\<rparr>) = factory_calls_for i s"
  "factory_calls_for i (s\<lparr>contributionsById := n\<rparr>) = factory_calls_for i s"
  by (simp_all add: factory_calls_for_def factory_calls_def)

lemma doInstantiateByPhase_calls_for:
  "instancesById s i = Some v \<Longrightarrow>
     factory_calls_for i (doInstantiateByPhase ph s) = factory_calls_for i s"
  by (cases ph)
     (simp_all add: doInstantiateByPhase_result Let_def instantiateAll_calls_for
       split: option.splits)

lemma instantiateByPhase_frame [simp]:
  "started (instantiateByPhase ph s) = started s"
  "lifecyclePhase (instantiateByPhase ph s) = lifecyclePhase s"
  "isBuilt (instantiateByPhase ph s) = isBuilt s"
  "whenRestored (instantiateByPhase ph s) = whenRestored s"
  "createThrows (instantiateByPhase ph s) = createThrows s"
  "createElapsed (instantiateByPhase ph s) = createElapsed s"
  by (simp_all add: instantiateByPhase_def)

lemma instantiateByPhase_byPhase:
  "contributionsByPhase (instantiateByPhase ph s) =
     (if phase_num ph \<le> phase_num (lifecyclePhase s)
      then (contributionsByPhase s)(ph := None) else contributionsByPhase s)"
  by (simp add: instantiateByPhase_def)

lemma instantiateByPhase_phaseWaiters:
  "phaseWaiters (instantiateByPhase ph s) =
     phaseWaiters s @ (if phase_num ph \<le> phase_num (lifecyclePhase s) then [] else [ph])"
  by (simp add: instantiateByPhase_def)

lemma instantiateByPhase_idleQueue:
  "idleQueue (instantiateByPhase ph s) =
     idleQueue s @ (case contributionsByPhase s ph of
                      None \<Rightarrow> []
                    | Some cs \<Rightarrow> if ph = Restored \<and> phase_num ph \<le> phase_num (lifecyclePhase s)
                        then [\<lparr>task_contributions = cs, task_i = 0, task_phase = Restored,
                               task_timeout = 500\<rparr>]
                        else [])"
  by (simp add: instantiateByPhase_def doInstantiateByPhase_idleQueue split: option.splits)

lemma instantiateByPhase_byId_shrinks:
  "contributionsById (instantiateByPhase ph s) j = Some r \<Longrightarrow> contributionsById s j = Some r"
  by (auto simp: instantiateByPhase_def split: if_splits dest: doInstantiateByPhase_byId_shrinks)

lemma instantiateByPhase_instances_mono:
  "instancesById s i = Some v \<Longrightarrow> instancesById (instantiateByPhase ph s) i = Some v"
  by (simp add: instantiateByPhase_def doInstantiateByPhase_instances_mono)

lemma instantiateByPhase_calls_for:
  "instancesById s i = Some v \<Longrightarrow>
     factory_calls_for i (instantiateByPhase ph s) = factory_calls_for i s"
  by (simp add: instantiateByPhase_def doInstantiateByPhase_calls_for)

lemma start_unfold:
  "start s = instantiateByPhase Eventually (instantiateByPhase Restored
               (instantiateByPhase Ready (instantiateByPhase Starting (s\<lparr>started := True\<rparr>))))"
  by (simp add: start_def)

lemma start_frame [simp]:
  "started (start s) = True"
  "lifecyclePhase (start s) = lifecyclePhase s"
  "isBuilt (start s) = isBuilt s"
  "whenRestored (start s) = whenRestored s"
  "createThrows (start s) = createThrows s"
  "createElapsed (start s) = createElapsed s"
  by (simp_all add: start_unfold)

lemma start_byPhase:
  "contributionsByPhase (start s) ph =
     (if phase_num ph \<le> phase_num (lifecyclePhase s) then None else contributionsByPhase s ph)"
  by (cases ph) (simp_all add: start_unfold instantiateByPhase_byPhase)

lemma start_phaseWaiters:
  "phaseWaiters (start s) =
     phaseWaiters s @ filter (\<lambda>ph. phase_num (lifecyclePhase s) < phase_num ph)
                        [Starting, Ready, Restored, Eventually]"
  by (cases "lifecyclePhase s") (simp_all add: start_unfold instantiateByPhase_phaseWaiters)

lemma start_idleQueue:
  "idleQueue (start s) =
     idleQueue s @ (case contributionsByPhase s Restored of
                      None \<Rightarrow> []
                    | Some cs \<Rightarrow> if phase_num Restored \<le> phase_num (lifecyclePhase s)
                        then [\<lparr>task_contributions = cs, task_i = 0, task_phase = Restored,
                               task_timeout = 500\<rparr>]
                        else [])"
  by (simp add: start_unfold instantiateByPhase_idleQueue instantiateByPhase_byPhase
      split: option.splits)

lemma start_byId_shrinks:
  "contributionsById (start s) j = Some r \<Longrightarrow> contributionsById s j = Some r"
  by (auto simp: start_unfold dest!: instantiateByPhase_byId_shrinks)

lemma start_instances_mono:
  "instancesById s i = Some v \<Longrightarrow> instancesById (start s) i = Some v"
  by (simp add: start_unfold instantiateByPhase_instances_mono)

lemma start_calls_for:
  "instancesById s i = Some v \<Longrightarrow> factory_calls_for i (start s) = factory_calls_for i s"
  by (simp add: start_unfold instantiateByPhase_instances_mono instantiateByPhase_calls_for)

lemma resumeEventually_frame [simp]:
  "started (resumeEventually k s) = started s"
  "lifecyclePhase (resumeEventually k s) = lifecyclePhase s"
  "isBuilt (resumeEventually k s) = isBuilt s"
  "contributionsByPhase (resumeEventually k s) = contributionsByPhase s"
  "contributionsById (resumeEventually k s) = contributionsById s"
  "instancesById (resumeEventually k s) = instancesById s"
  "whenRestored (resumeEventually k s) = whenRestored s"
  "phaseWaiters (resumeEventually k s) = phaseWaiters s"
  "idleQueue (resumeEventually k s)
     = idleQueue s @ [\<lparr>task_contributions = awaitingRestored s ! k, task_i = 0,
                       task_phase = Eventually, task_timeout = 3000\<rparr>]"
  "createThrows (resumeEventually k s) = createThrows s"
  "createElapsed (resumeEventually k s) = createElapsed s"
  "factory_calls_for i (resumeEventually k s) = factory_calls_for i s"
  by (simp_all add: resumeEventually_def)

subsection \<open>Registration and lookup\<close>

lemma register2_inline:
  assumes "inst \<noteq> Lazy" "started s" "inst_num inst \<le> phase_num (lifecyclePhase s)"
  shows "\<exists>ph. toPhase inst = Some ph
           \<and> registerWorkbenchContribution2 i k inst s
               = safeCreateContribution \<lparr>reg_id = i, reg_ctor = k\<rparr> ph s"
proof -
  from assms(1) obtain ph where "toPhase inst = Some ph"
    using toPhase_Some by blast
  with assms show ?thesis
    by (simp add: registerWorkbenchContribution2_def)
qed

lemma register2_stored:
  assumes "\<not> (inst \<noteq> Lazy \<and> started s \<and> inst_num inst \<le> phase_num (lifecyclePhase s))"
  shows "registerWorkbenchContribution2 i k inst s =
     (let c = \<lparr>reg_id = i, reg_ctor = k\<rparr>;
          s1 = (case toPhase inst of
                  Some ph \<Rightarrow> s\<lparr>contributionsByPhase := (contributionsByPhase s)(ph \<mapsto> pending s ph @ [c])\<rparr>
                | None \<Rightarrow> s)
      in case i of
           None \<Rightarrow> s1
         | Some j \<Rightarrow> if contributionsById s j = None
                     then s1\<lparr>contributionsById := (contributionsById s)(j \<mapsto> c)\<rparr>
                     else emit (ConsoleError j) s1)"
  using assms
  by (cases inst; cases i)
     (auto simp: registerWorkbenchContribution2_def Let_def pending_def)

lemma register2_frame [simp]:
  "started (registerWorkbenchContribution2 i k inst s) = started s"
  "lifecyclePhase (registerWorkbenchContribution2 i k inst s) = lifecyclePhase s"
  "isBuilt (registerWorkbenchContribution2 i k inst s) = isBuilt s"
  "whenRestored (registerWorkbenchContribution2 i k inst s) = whenRestored s"
  "phaseWaiters (registerWorkbenchContribution2 i k inst s) = phaseWaiters s"
  "awaitingRestored (registerWorkbenchContribution2 i k inst s) = awaitingRestored s"
  "idleQueue (registerWorkbenchContribution2 i k inst s) = idleQueue s"
  "createThrows (registerWorkbenchContribution2 i k inst s) = createThrows s"
  "createElapsed (registerWorkbenchContribution2 i k inst s) = createElapsed s"
  by (cases "inst \<noteq> Lazy \<and> started s \<and> inst_num inst \<le> phase_num (lifecyclePhase s)";
      cases "toPhase inst"; cases i;
      auto simp: register2_stored Let_def dest: register2_inline [where i = i and k = k])+

lemma register2_instances_mono:
  "instancesById s j = Some v \<Longrightarrow>
     instancesById (registerWorkbenchContribution2 i k inst s) j = Some v"
  by (cases "inst \<noteq> Lazy \<and> started s \<and> inst_num inst \<le> phase_num (lifecyclePhase s)";
      cases "toPhase inst"; cases i)
     (auto simp: register2_stored Let_def safeCreate_instances_mono
       dest: register2_inline [where i = i and k = k])

lemma register2_calls_for:
  "instancesById s j = Some v \<Longrightarrow>
     factory_calls_for j (registerWorkbenchContribution2 i k inst s) = factory_calls_for j s"
  by (cases "inst \<noteq> Lazy \<and> started s \<and> inst_num inst \<le> phase_num (lifecyclePhase s)";
      cases "toPhase inst"; cases i)
     (auto simp: register2_stored Let_def safeCreate_calls_for
       dest: register2_inline [where i = i and k = k])

lemma register2_byId_wf:
  assumes "byId_wf s"
  shows "byId_wf (registerWorkbenchContribution2 i k inst s)"
proof (cases "inst \<noteq> Lazy \<and> started s \<and> inst_num inst \<le> phase_num (lifecyclePhase s)")
  case True
  then obtain ph where "registerWorkbenchContribution2 i k inst s
      = safeCreateContribution \<lparr>reg_id = i, reg_ctor = k\<rparr> ph s"
    using register2_inline by blast
  with assms show ?thesis
    by (auto simp: byId_wf_def dest: safeCreate_byId_shrinks)
next
  case False
  with assms show ?thesis
    by (auto simp: byId_wf_def register2_stored Let_def split: option.splits if_splits)
qed

lemma get_state:
  "snd (getWorkbenchContribution i s) = s
   \<or> (\<exists>c. instancesById s i = None \<and> started s \<and> contributionsById s i = Some c
        \<and> snd (getWorkbenchContribution i s)
            = safeCreateContribution c (lifecyclePhase s)
                (if phase_num (lifecyclePhase s) < phase_num Restored
                 then emit (LogWarnLazyEarly i) s else s))"
  by (simp add: getWorkbenchContribution_def Let_def split: option.splits)

lemma get_frame [simp]:
  "started (snd (getWorkbenchContribution i s)) = started s"
  "lifecyclePhase (snd (getWorkbenchContribution i s)) = lifecyclePhase s"
  "isBuilt (snd (getWorkbenchContribution i s)) = isBuilt s"
  "contributionsByPhase (snd (getWorkbenchContribution i s)) = contributionsByPhase s"
  "whenRestored (snd (getWorkbenchContribution i s)) = whenRestored s"
  "phaseWaiters (snd (getWorkbenchContribution i s)) = phaseWaiters s"
  "awaitingRestored (snd (getWorkbenchContribution i s)) = awaitingRestored s"
  "idleQueue (snd (getWorkbenchContribution i s)) = idleQueue s"
  "createThrows (snd (getWorkbenchContribution i s)) = createThrows s"
  "createElapsed (snd (getWorkbenchContribution i s)) = createElapsed s"
  using get_state [of i s] by (auto split: if_splits)

lemma get_byId_shrinks:
  "contributionsById (snd (getWorkbenchContribution i s)) j = Some r \<Longrightarrow> contributionsById s j = Some r"
  using get_state [of i s] by (auto dest!: safeCreate_byId_shrinks split: if_splits)

lemma get_instances_mono:
  "instancesById s j = Some v \<Longrightarrow> instancesById (snd (getWorkbenchContribution i s)) j = Some v"
  using get_state [of i s] by (auto simp: safeCreate_instances_mono)

lemma get_calls_for:
  "instancesById s j = Some v \<Longrightarrow>
     factory_calls_for j (snd (getWorkbenchContribution i s)) = factory_calls_for j s"
  using get_state [of i s] by (auto simp: safeCreate_calls_for)

subsection \<open>Invariants of every execution\<close>

lemma byId_wf_shrinks:
  "byId_wf s \<Longrightarrow> (\<And>j r. contributionsById s' j = Some r \<Longrightarrow> contributionsById s j = Some r)
     \<Longrightarrow> byId_wf s'"
  by (auto simp: byId_wf_def)

lemma exec_byId_wf: "byId_wf s \<Longrightarrow> byId_wf (exec e s)"
proof (cases e)
  case (Register2 i k inst)
  then show "byId_wf s \<Longrightarrow> byId_wf (exec e s)" by (simp add: register2_byId_wf)
next
  case (Register k ph)
  then show "byId_wf s \<Longrightarrow> byId_wf (exec e s)"
    by (simp add: registerWorkbenchContribution_def register2_byId_wf)
next
  case (Get i)
  then show "byId_wf s \<Longrightarrow> byId_wf (exec e s)"
    by (auto elim!: byId_wf_shrinks dest: get_byId_shrinks)
next
  case Start
  then show "byId_wf s \<Longrightarrow> byId_wf (exec e s)"
    by (auto elim!: byId_wf_shrinks dest: start_byId_shrinks)
next
  case (SetPhase ph)
  then show "byId_wf s \<Longrightarrow> byId_wf (exec e s)" by (simp add: byId_wf_def)
next
  case (PhaseReached k)
  then show "byId_wf s \<Longrightarrow> byId_wf (exec e s)"
    by (auto elim!: byId_wf_shrinks dest: doInstantiateByPhase_byId_shrinks)
next
  case (RestoredAwaited k)
  then show "byId_wf s \<Longrightarrow> byId_wf (exec e s)" by (simp add: byId_wf_def)
next
  case (IdleSlice k idle)
  then show "byId_wf s \<Longrightarrow> byId_wf (exec e s)"
    by (auto elim!: byId_wf_shrinks dest: instantiateSome_byId_shrinks)
qed

lemma run_snoc: "run (es @ [e]) s = step e (run es s)"
  by (simp add: run_def)

lemma run_Cons: "run (e # es) s = run es (step e s)"
  by (simp add: run_def)

lemma run_Nil [simp]: "run [] s = s"
  by (simp add: run_def)

lemma run_append: "run (es @ fs) s = run fs (run es s)"
  by (simp add: run_def)

lemma run_byId_wf: "byId_wf s \<Longrightarrow> byId_wf (run es s)"
  by (induction es rule: rev_induct) (simp_all add: run_snoc step_def exec_byId_wf)

lemma init_byId_wf: "byId_wf (init thr el built)"
  by (simp add: byId_wf_def init_def)

lemma exec_instances_mono:
  "instancesById s i = Some v \<Longrightarrow>
     instancesById (exec e s) i = Some v \<and> factory_calls_for i (exec e s) = factory_calls_for i s"
  by (cases e)
     (simp_all add: register2_instances_mono register2_calls_for registerWorkbenchContribution_def
        get_instances_mono get_calls_for start_instances_mono start_calls_for
        doInstantiateByPhase_instances_mono doInstantiateByPhase_calls_for
        instantiateSome_instances_mono instantiateSome_calls_for)

lemma run_instances_mono:
  "instancesById s i = Some v \<Longrightarrow>
     instancesById (run es s) i = Some v \<and> factory_calls_for i (run es s) = factory_calls_for i s"
  by (induction es rule: rev_induct) (simp_all add: run_snoc step_def exec_instances_mono)

lemma exec_resolved_mono:
  "whenRestored s = Resolved \<Longrightarrow> whenRestored (exec e s) = Resolved"
proof (cases e)
  case (IdleSlice k idle)
  then show "whenRestored s = Resolved \<Longrightarrow> whenRestored (exec e s) = Resolved"
    using instantiateSome_whenRestored
      [of "idleQueue s ! k" idle "s\<lparr>idleQueue := take k (idleQueue s) @ drop (Suc k) (idleQueue s)\<rparr>"]
    by auto
qed (simp_all add: registerWorkbenchContribution_def)

lemma set_remove_nth: "set (take k xs @ drop (Suc k) xs) \<subseteq> set xs"
  by (auto dest: in_set_takeD in_set_dropD)

lemma step_eventually_gated:
  assumes "eventually_gated s"
  shows "eventually_gated (step e s)"
proof (cases "enabled e s")
  case False
  with assms show ?thesis by (simp add: step_def)
next
  case en: True
  have "eventually_gated (exec e s)"
  proof (cases e)
    case (Register2 i k inst)
    with assms show ?thesis by (simp add: eventually_gated_def)
  next
    case (Register k ph)
    with assms show ?thesis by (simp add: eventually_gated_def registerWorkbenchContribution_def)
  next
    case (Get i)
    with assms show ?thesis by (simp add: eventually_gated_def)
  next
    case Start
    with assms show ?thesis
      by (auto simp: eventually_gated_def start_idleQueue split: option.splits if_splits)
  next
    case (SetPhase ph)
    with assms show ?thesis by (simp add: eventually_gated_def)
  next
    case (PhaseReached k)
    with assms show ?thesis
      by (auto simp: eventually_gated_def doInstantiateByPhase_idleQueue
          split: option.splits if_splits)
  next
    case (RestoredAwaited k)
    with assms en show ?thesis by (auto simp: eventually_gated_def)
  next
    case (IdleSlice k idle)
    define s0 where "s0 = s\<lparr>idleQueue := take k (idleQueue s) @ drop (Suc k) (idleQueue s)\<rparr>"
    define t where "t = idleQueue s ! k"
    from en IdleSlice have t_in: "t \<in> set (idleQueue s)"
      by (simp add: t_def)
    have q0: "set (idleQueue s0) \<subseteq> set (idleQueue s)"
      using set_remove_nth [of k "idleQueue s"] by (simp add: s0_def)
    have w0: "whenRestored s0 = whenRestored s"
      by (simp add: s0_def)
    have ex: "exec e s = instantiateSome t idle s0"
      using IdleSlice by (simp add: s0_def t_def)
    show ?thesis
      unfolding eventually_gated_def ex
    proof (intro ballI impI)
      fix u assume u: "u \<in> set (idleQueue (instantiateSome t idle s0))" "task_phase u = Eventually"
      from instantiateSome_idleQueue [of t idle s0] u(1)
      have "u \<in> set (idleQueue s0) \<or> (\<exists>j. u = t\<lparr>task_i := j\<rparr>)"
        by auto
      with u(2) q0 t_in have "\<exists>u' \<in> set (idleQueue s). task_phase u' = Eventually"
        by auto
      with assms have "whenRestored s = Resolved"
        by (auto simp: eventually_gated_def)
      with instantiateSome_whenRestored [of t idle s0] w0
      show "whenRestored (instantiateSome t idle s0) = Resolved"
        by auto
    qed
  qed
  with en show ?thesis by (simp add: step_def)
qed

lemma run_eventually_gated: "eventually_gated s \<Longrightarrow> eventually_gated (run es s)"
  by (induction es rule: rev_induct) (simp_all add: run_snoc step_eventually_gated)

lemma init_eventually_gated: "eventually_gated (init thr el built)"
  by (simp add: eventually_gated_def init_def)

subsection \<open>Evaluating concrete executions\<close>

lemmas eval_defs = run_def step_def registerWorkbenchContribution2_def start_def
  instantiateByPhase_def doInstantiateByPhase_def init_def

lemma get_cached: "instancesById s i = Some v \<Longrightarrow> getWorkbenchContribution i s = (Inr v, s)"
  by (simp add: getWorkbenchContribution_def)

lemma get_forced_calls_for:
  assumes "byId_wf s" "instancesById s i = None" "started s" "contributionsById s i = Some c"
  shows "factory_calls_for i (snd (getWorkbenchContribution i s)) = factory_calls_for i s @ [c]"
proof -
  from assms have rid: "reg_id c = Some i"
    by (auto simp: byId_wf_def)
  with assms(2) have g: "\<not> guarded c s'" if "instancesById s' = instancesById s" for s'
    using that by (simp add: guarded_def)
  from assms rid show ?thesis
    by (simp add: getWorkbenchContribution_def Let_def factory_calls_for_def
        safeCreate_factory_calls g split: option.splits)
qed

subsection \<open>Draining a batch\<close>

lemma same_data_refl [simp]: "same_data s s"
  by (simp add: same_data_def)

lemma same_data_sym: "same_data s s' \<Longrightarrow> same_data s' s"
  by (simp add: same_data_def)

lemma same_data_trans: "same_data s s' \<Longrightarrow> same_data s' s'' \<Longrightarrow> same_data s s''"
  by (simp add: same_data_def)

lemma same_data_simps [simp]:
  "same_data (runWhenGlobalIdle t s) x = same_data s x"
  "same_data (finish_batch ph s) x = same_data s x"
  "same_data (s\<lparr>idleQueue := q\<rparr>) x = same_data s x"
  by (simp_all add: same_data_def factory_calls_def)

lemma same_data_safeCreate:
  assumes "same_data s s'"
  shows "same_data (safeCreateContribution c ph s) (safeCreateContribution c ph s')"
proof (cases "guarded c s")
  case True
  with assms have "guarded c s'"
    by (auto simp: guarded_def same_data_def split: option.splits)
  with True assms show ?thesis
    by (simp add: safeCreate_guarded)
next
  case False
  with assms have g': "\<not> guarded c s'"
    by (auto simp: guarded_def same_data_def split: option.splits)
  have fc: "factory_calls (safeCreateContribution c ph s)
              = factory_calls (safeCreateContribution c ph s')"
    using assms False g' by (simp add: safeCreate_factory_calls same_data_def)
  have rest: "instancesById (safeCreateContribution c ph s) = instancesById (safeCreateContribution c ph s')"
    "contributionsById (safeCreateContribution c ph s) = contributionsById (safeCreateContribution c ph s')"
    "timingsByPhase (safeCreateContribution c ph s) = timingsByPhase (safeCreateContribution c ph s')"
    "factoryCalls (safeCreateContribution c ph s) = factoryCalls (safeCreateContribution c ph s')"
    using assms
    by (cases "reg_id c";
        simp add: safeCreate_unfold [OF False] safeCreate_unfold [OF g'] same_data_def)+
  from fc rest assms show ?thesis
    by (simp add: same_data_def)
qed

lemma same_data_instantiateAll:
  "same_data s s' \<Longrightarrow> same_data (instantiateAll cs ph s) (instantiateAll cs ph s')"
  by (induction cs arbitrary: s s') (simp_all add: same_data_safeCreate)

lemma slice_single:
  assumes q: "idleQueue s = [t]" and x: "same_data s x"
  shows "(case first_stop idle 0 (length (task_contributions t) - task_i t) of
            None \<Rightarrow>
              idleQueue (step (IdleSlice 0 idle) s) = []
            \<and> same_data (step (IdleSlice 0 idle) s)
                 (instantiateAll (drop (task_i t) (task_contributions t)) (task_phase t) x)
          | Some m \<Rightarrow>
              idleQueue (step (IdleSlice 0 idle) s) = [t\<lparr>task_i := task_i t + m\<rparr>]
            \<and> same_data (step (IdleSlice 0 idle) s)
                 (instantiateAll (take m (drop (task_i t) (task_contributions t))) (task_phase t) x))"
proof -
  have st: "step (IdleSlice 0 idle) s = instantiateSome t idle (s\<lparr>idleQueue := []\<rparr>)"
    using q by (simp add: step_def)
  have sd: "same_data (instantiateAll cs' (task_phase t) (s\<lparr>idleQueue := []\<rparr>))
              (instantiateAll cs' (task_phase t) x)" for cs'
    using x by (intro same_data_instantiateAll) simp
  show ?thesis
    unfolding st using x
    by (simp add: instantiateSome_result Let_def sd split: option.splits)
qed

lemma drain_empty: "idleQueue s = [] \<Longrightarrow> drain fuel ds n s = Some (n, s)"
  by (cases fuel) simp_all

lemma drain_terminates:
  assumes "idleQueue s = [t]" "task_i t \<le> length (task_contributions t)"
    "length (task_contributions t) - task_i t < fuel"
  shows "\<exists>k s'. drain fuel ds n s = Some (n + k, s') \<and> 1 \<le> k
           \<and> k \<le> length (task_contributions t) - task_i t + 1
           \<and> idleQueue s' = []
           \<and> same_data s'
               (instantiateAll (drop (task_i t) (task_contributions t)) (task_phase t) s)"
  using assms
proof (induction fuel arbitrary: s t n)
  case 0
  then show ?case by simp
next
  case (Suc fuel)
  let ?cs = "task_contributions t" and ?i = "task_i t" and ?ph = "task_phase t"
  let ?s1 = "step (IdleSlice 0 (ds n)) s"
  have dr: "drain (Suc fuel) ds n s = drain fuel ds (Suc n) ?s1"
    using Suc.prems(1) by simp
  note sl = slice_single [OF Suc.prems(1) same_data_refl, of "ds n"]
  show ?case
  proof (cases "first_stop (ds n) 0 (length ?cs - ?i)")
    case None
    with sl have "idleQueue ?s1 = []"
      "same_data ?s1 (instantiateAll (drop ?i ?cs) ?ph s)"
      by simp_all
    then show ?thesis
      unfolding dr by (intro exI [of _ 1] exI [of _ ?s1]) (simp add: drain_empty)
  next
    case (Some m)
    let ?t' = "t\<lparr>task_i := ?i + m\<rparr>"
    from first_stop_bounds [OF Some] have m: "1 \<le> m" "m \<le> length ?cs - ?i"
      by simp_all
    from Some sl have q1: "idleQueue ?s1 = [?t']"
      and d1: "same_data ?s1 (instantiateAll (take m (drop ?i ?cs)) ?ph s)"
      by simp_all
    from m Suc.prems have p2: "task_i ?t' \<le> length (task_contributions ?t')"
      and p3: "length (task_contributions ?t') - task_i ?t' < fuel"
      by simp_all
    from Suc.IH [OF q1 p2 p3, of "Suc n"]
    obtain k s' where k: "drain fuel ds (Suc n) ?s1 = Some (Suc n + k, s')" "1 \<le> k"
      "k \<le> length ?cs - (?i + m) + 1" "idleQueue s' = []"
      "same_data s' (instantiateAll (drop (?i + m) ?cs) ?ph ?s1)"
      by auto
    have "same_data (instantiateAll (drop (?i + m) ?cs) ?ph ?s1)
            (instantiateAll (drop (?i + m) ?cs) ?ph (instantiateAll (take m (drop ?i ?cs)) ?ph s))"
      by (rule same_data_instantiateAll [OF d1])
    also have "instantiateAll (drop (?i + m) ?cs) ?ph (instantiateAll (take m (drop ?i ?cs)) ?ph s)
                 = instantiateAll (drop ?i ?cs) ?ph s"
    proof -
      have "drop ?i ?cs = take m (drop ?i ?cs) @ drop (?i + m) ?cs"
        by (metis append_take_drop_id drop_drop add.commute)
      then show ?thesis
        by (metis instantiateAll_append)
    qed
    finally have "same_data (instantiateAll (drop (?i + m) ?cs) ?ph ?s1)
                    (instantiateAll (drop ?i ?cs) ?ph s)" .
    with k(5) have "same_data s' (instantiateAll (drop ?i ?cs) ?ph s)"
      by (rule same_data_trans)
    with k m show ?thesis
      unfolding dr by (intro exI [of _ "Suc k"] exI [of _ s']) simp
  qed
qed

lemma first_stop_no_time: "idle q < 1 \<Longrightarrow> 0 < n \<Longrightarrow> first_stop idle q n = Some 1"
  by (cases n) simp_all

lemma slices_Suc: "slices ds n (Suc j) s = step (IdleSlice 0 (ds (n + j))) (slices ds n j s)"
  by (simp add: slices_def run_def)

lemma slices_no_time:
  assumes "idleQueue s = [t]" "\<forall>a q. ds a q < 1"
    "task_i t + j \<le> length (task_contributions t)"
  shows "idleQueue (slices ds n j s) = [t\<lparr>task_i := task_i t + j\<rparr>]
       \<and> same_data (slices ds n j s)
           (instantiateAll (take j (drop (task_i t) (task_contributions t))) (task_phase t) s)"
  using assms(3)
proof (induction j)
  case 0
  with assms(1) show ?case by (simp add: slices_def)
next
  case (Suc j)
  let ?cs = "task_contributions t" and ?i = "task_i t" and ?ph = "task_phase t"
  let ?sj = "slices ds n j s" and ?tj = "t\<lparr>task_i := task_i t + j\<rparr>"
  from Suc have q: "idleQueue ?sj = [?tj]"
    and d: "same_data ?sj (instantiateAll (take j (drop ?i ?cs)) ?ph s)"
    by simp_all
  from Suc.prems assms(2) have fs: "first_stop (ds (n + j)) 0 (length (task_contributions ?tj) - task_i ?tj) = Some 1"
    by (intro first_stop_no_time) simp_all
  from slice_single [OF q d, of "ds (n + j)"] fs
  have q': "idleQueue (slices ds n (Suc j) s) = [t\<lparr>task_i := ?i + Suc j\<rparr>]"
    and d': "same_data (slices ds n (Suc j) s)
               (instantiateAll (take 1 (drop (?i + j) ?cs)) ?ph
                  (instantiateAll (take j (drop ?i ?cs)) ?ph s))"
    by (simp_all add: slices_Suc)
  have "take (Suc j) (drop ?i ?cs) = take j (drop ?i ?cs) @ take 1 (drop (?i + j) ?cs)"
    by (metis One_nat_def Suc_eq_plus1 add.commute drop_drop take_add)
  with d' have "same_data (slices ds n (Suc j) s) (instantiateAll (take (Suc j) (drop ?i ?cs)) ?ph s)"
    by (simp add: instantiateAll_append)
  with q' show ?case by simp
qed

lemma slices_0 [simp]: "slices ds n 0 s = s"
  by (simp add: slices_def)

lemma slices_shift: "slices ds n (Suc j) s = slices ds (Suc n) j (step (IdleSlice 0 (ds n)) s)"
proof -
  have "map (\<lambda>a. IdleSlice 0 (ds (n + a))) [0..<Suc j]
          = IdleSlice 0 (ds n) # map (\<lambda>a. IdleSlice 0 (ds (Suc n + a))) [0..<j]"
    by (simp add: upt_conv_Cons map_Suc_upt [symmetric] del: upt_Suc)
  then show ?thesis
    by (simp add: slices_def run_Cons)
qed

lemma drain_slices:
  assumes "\<forall>j'<j. idleQueue (slices ds n j' s) \<noteq> []" "idleQueue (slices ds n j s) = []" "j \<le> fuel"
  shows "drain fuel ds n s = Some (n + j, slices ds n j s)"
  using assms
proof (induction j arbitrary: s n fuel)
  case 0
  then show ?case by (simp add: drain_empty)
next
  case (Suc j)
  from Suc.prems(3) obtain fuel' where f: "fuel = Suc fuel'" "j \<le> fuel'"
    by (cases fuel) auto
  from Suc.prems(1) have ne: "idleQueue s \<noteq> []"
    by (metis slices_0 zero_less_Suc)
  let ?s1 = "step (IdleSlice 0 (ds n)) s"
  have a: "\<forall>j'<j. idleQueue (slices ds (Suc n) j' ?s1) \<noteq> []"
    using Suc.prems(1) by (auto simp: slices_shift [symmetric])
  have b: "idleQueue (slices ds (Suc n) j ?s1) = []"
    using Suc.prems(2) by (simp add: slices_shift)
  from Suc.IH [OF a b f(2)] ne f(1) show ?case
    by (simp add: slices_shift)
qed

subsection \<open>No completion without a Restored batch\<close>

lemma register2_byPhase_Restored:
  assumes "started s" "phase_num Restored \<le> phase_num (lifecyclePhase s)"
  shows "contributionsByPhase (registerWorkbenchContribution2 i k inst s) Restored
           = contributionsByPhase s Restored"
proof (cases "inst \<noteq> Lazy \<and> started s \<and> inst_num inst \<le> phase_num (lifecyclePhase s)")
  case True
  then show ?thesis
    using register2_inline [of inst s i k] by auto
next
  case False
  with assms have "toPhase inst = None \<or> toPhase inst = Some Eventually"
    by (cases inst) auto
  with False show ?thesis
    by (auto simp: register2_stored Let_def split: option.splits)
qed

lemma step_restored_skipped:
  assumes "restored_skipped s"
  shows "restored_skipped (step e s)"
proof (cases "enabled e s")
  case False
  with assms show ?thesis by (simp add: step_def)
next
  case en: True
  from assms have st: "started s" and ph: "phase_num Restored \<le> phase_num (lifecyclePhase s)"
    and bp: "contributionsByPhase s Restored = None"
    and iq: "Restored \<notin> task_phase ` set (idleQueue s)" and wr: "whenRestored s = Pending"
    by (simp_all add: restored_skipped_def)
  have "restored_skipped (exec e s)"
  proof (cases e)
    case (Register2 i k inst)
    with st ph bp iq wr register2_byPhase_Restored [OF st ph, of i k inst] show ?thesis
      by (simp add: restored_skipped_def)
  next
    case (Register k p)
    with st ph bp iq wr register2_byPhase_Restored [OF st ph, of None k "toInstantiation p"]
    show ?thesis
      by (simp add: restored_skipped_def registerWorkbenchContribution_def)
  next
    case (Get i)
    with st ph bp iq wr show ?thesis
      by (simp add: restored_skipped_def)
  next
    case Start
    with st ph bp iq wr show ?thesis
      by (simp add: restored_skipped_def start_byPhase start_idleQueue)
  next
    case (SetPhase p)
    with st ph bp iq wr en show ?thesis
      by (simp add: restored_skipped_def)
  next
    case (PhaseReached k)
    with st ph bp iq wr show ?thesis
      by (simp add: restored_skipped_def doInstantiateByPhase_idleQueue split: option.splits)
  next
    case (RestoredAwaited k)
    with en wr show ?thesis by simp
  next
    case (IdleSlice k idle)
    define s0 where "s0 = s\<lparr>idleQueue := take k (idleQueue s) @ drop (Suc k) (idleQueue s)\<rparr>"
    define t where "t = idleQueue s ! k"
    from en IdleSlice have "t \<in> set (idleQueue s)"
      by (simp add: t_def)
    with iq have tp: "task_phase t \<noteq> Restored"
      by (metis imageI)
    have q0: "set (idleQueue s0) \<subseteq> set (idleQueue s)"
      using set_remove_nth [of k "idleQueue s"] by (simp add: s0_def)
    have ex: "exec e s = instantiateSome t idle s0"
      using IdleSlice by (simp add: s0_def t_def)
    from instantiateSome_whenRestored [of t idle s0] tp wr
    have w: "whenRestored (instantiateSome t idle s0) = Pending"
      by (simp add: s0_def)
    have iq': "task_phase u \<noteq> Restored" if "u \<in> set (idleQueue s)" for u
      using iq that by (metis imageI)
    have q: "Restored \<notin> task_phase ` set (idleQueue (instantiateSome t idle s0))"
    proof
      assume "Restored \<in> task_phase ` set (idleQueue (instantiateSome t idle s0))"
      then obtain u where u: "u \<in> set (idleQueue (instantiateSome t idle s0))"
        "task_phase u = Restored"
        by auto
      from instantiateSome_idleQueue [of t idle s0] u(1)
      have "u \<in> set (idleQueue s0) \<or> (\<exists>j. u = t\<lparr>task_i := j\<rparr>)"
        by auto
      with q0 iq' tp u(2) show False
        by auto
    qed
    from st ph bp w q show ?thesis
      unfolding ex by (simp add: restored_skipped_def s0_def)
  qed
  with en show ?thesis by (simp add: step_def)
qed

lemma run_restored_skipped: "restored_skipped s \<Longrightarrow> restored_skipped (run es s)"
  by (induction es rule: rev_induct) (simp_all add: run_snoc step_restored_skipped)

lemma restored_dispatched_empty:
  "restored_skipped
     (run [Start, SetPhase Ready, PhaseReached 0, SetPhase Restored, PhaseReached 0]
        (init thr el built))"
  by (simp add: restored_skipped_def eval_defs)

subsection \<open>Duplicate ids\<close>

lemma exec_byId_at:
  assumes "\<not> registers i e" "contributionsById (exec e s) i = Some r"
  shows "contributionsById s i = Some r"
proof (cases e)
  case (Register2 j k inst)
  with assms(1) have ji: "j \<noteq> Some i" by simp
  show ?thesis
  proof (cases "inst \<noteq> Lazy \<and> started s \<and> inst_num inst \<le> phase_num (lifecyclePhase s)")
    case True
    with assms(2) Register2 show ?thesis
      using register2_inline [of inst s j k] by (auto dest: safeCreate_byId_shrinks)
  next
    case False
    with assms(2) Register2 ji show ?thesis
      by (auto simp: register2_stored Let_def split: option.splits if_splits)
  qed
next
  case (Register k p)
  show ?thesis
  proof (cases "toInstantiation p \<noteq> Lazy \<and> started s
                  \<and> inst_num (toInstantiation p) \<le> phase_num (lifecyclePhase s)")
    case True
    with assms(2) Register show ?thesis
      using register2_inline [of "toInstantiation p" s None k]
      by (auto simp: registerWorkbenchContribution_def dest: safeCreate_byId_shrinks)
  next
    case False
    with assms(2) Register show ?thesis
      by (auto simp: registerWorkbenchContribution_def register2_stored Let_def
          split: option.splits)
  qed
next
  case (Get j)
  with assms(2) show ?thesis by (auto dest: get_byId_shrinks)
next
  case Start
  with assms(2) show ?thesis by (auto dest: start_byId_shrinks)
next
  case (SetPhase p)
  with assms(2) show ?thesis by simp
next
  case (PhaseReached k)
  with assms(2) show ?thesis by (auto dest: doInstantiateByPhase_byId_shrinks)
next
  case (RestoredAwaited k)
  with assms(2) show ?thesis by simp
next
  case (IdleSlice k idle)
  with assms(2) show ?thesis by (auto dest: instantiateSome_byId_shrinks)
qed

lemma run_byId_at:
  assumes "\<forall>e \<in> set es. \<not> registers i e" "contributionsById (run es s) i = Some r"
  shows "contributionsById s i = Some r"
  using assms
proof (induction es rule: rev_induct)
  case Nil
  then show ?case by simp
next
  case (snoc e es)
  from snoc.prems have "contributionsById (run es s) i = Some r"
    by (auto simp: run_snoc step_def split: if_splits dest: exec_byId_at)
  with snoc show ?case by simp
qed

lemma get_factory_calls:
  "factory_calls (snd (getWorkbenchContribution i s)) =
     factory_calls s @
       (case contributionsById s i of
          None \<Rightarrow> []
        | Some c \<Rightarrow> if instancesById s i = None \<and> started s \<and> \<not> guarded c s then [c] else [])"
  by (simp add: getWorkbenchContribution_def Let_def safeCreate_factory_calls guarded_def
      split: option.splits)

lemma exec_not_rejected: "whenRestored s \<noteq> Rejected \<Longrightarrow> whenRestored (exec e s) \<noteq> Rejected"
proof (cases e)
  case (IdleSlice k idle)
  then show "whenRestored s \<noteq> Rejected \<Longrightarrow> whenRestored (exec e s) \<noteq> Rejected"
    using instantiateSome_whenRestored
      [of "idleQueue s ! k" idle "s\<lparr>idleQueue := take k (idleQueue s) @ drop (Suc k) (idleQueue s)\<rparr>"]
    by auto
qed (simp_all add: registerWorkbenchContribution_def)

lemma run_not_rejected: "whenRestored s \<noteq> Rejected \<Longrightarrow> whenRestored (run es s) \<noteq> Rejected"
  by (induction es rule: rev_induct) (simp_all add: run_snoc step_def exec_not_rejected)

subsection \<open>What phase progression can construct\<close>

lemma safeCreate_calls_subset:
  "set (factory_calls (safeCreateContribution c ph s)) \<subseteq> set (factory_calls s) \<union> {c}"
  by (auto simp: safeCreate_factory_calls)

lemma instantiateAll_calls_subset:
  "set (factory_calls (instantiateAll cs ph s)) \<subseteq> set (factory_calls s) \<union> set cs"
proof (induction cs arbitrary: s)
  case Nil
  show ?case by simp
next
  case (Cons c cs)
  from Cons [of "safeCreateContribution c ph s"] safeCreate_calls_subset [of c ph s]
  show ?case by auto
qed

lemma scheduled_frame:
  "contributionsByPhase s' = contributionsByPhase s \<Longrightarrow> awaitingRestored s' = awaitingRestored s
     \<Longrightarrow> idleQueue s' = idleQueue s \<Longrightarrow> scheduled s' = scheduled s"
  by (simp add: scheduled_def pending_def)

lemma instantiateAll_scheduled [simp]: "scheduled (instantiateAll cs ph s) = scheduled s"
  by (rule scheduled_frame) simp_all

lemma mark_scheduled [simp]: "scheduled (mark l s) = scheduled s"
  by (rule scheduled_frame) simp_all

lemma instantiateSome_progress:
  "set (factory_calls (instantiateSome t idle s)) \<union> scheduled (instantiateSome t idle s)
     \<subseteq> set (factory_calls s) \<union> scheduled s \<union> set (task_contributions t)"
proof -
  have fc: "set (factory_calls (instantiateSome t idle s))
              \<subseteq> set (factory_calls s) \<union> set (task_contributions t)"
    using instantiateAll_calls_subset
      [of "take m (drop (task_i t) (task_contributions t))" "task_phase t" s for m]
      instantiateAll_calls_subset [of "drop (task_i t) (task_contributions t)" "task_phase t" s]
    by (auto simp: instantiateSome_result Let_def split: option.splits
        dest!: in_set_takeD in_set_dropD)
  have sc: "scheduled (instantiateSome t idle s) \<subseteq> scheduled s \<union> set (task_contributions t)"
    using instantiateSome_idleQueue [of t idle s]
    by (auto simp: scheduled_def pending_def)
  from fc sc show ?thesis by blast
qed

lemma doInstantiateByPhase_progress:
  "set (factory_calls (doInstantiateByPhase ph s)) \<union> scheduled (doInstantiateByPhase ph s)
     \<subseteq> set (factory_calls s) \<union> scheduled s"
proof (cases "contributionsByPhase s ph")
  case None
  then show ?thesis by (simp add: doInstantiateByPhase_def)
next
  case (Some cs)
  define s1 where "s1 = s\<lparr>contributionsByPhase := (contributionsByPhase s)(ph := None)\<rparr>"
  have cs: "set cs \<subseteq> scheduled s"
    using Some by (auto simp: scheduled_def pending_def intro!: exI [of _ ph])
  have s1: "scheduled s1 \<subseteq> scheduled s" "factory_calls s1 = factory_calls s"
    by (auto simp: s1_def scheduled_def pending_def factory_calls_def split: option.splits if_splits)
  show ?thesis
  proof (cases ph)
    case Starting
    with Some have "doInstantiateByPhase ph s = mark (DidCreateWorkbenchContributions ph)
        (instantiateAll cs ph (mark (WillCreateWorkbenchContributions ph) s1))"
      by (simp add: doInstantiateByPhase_result s1_def)
    with cs s1 instantiateAll_calls_subset [of cs ph "mark (WillCreateWorkbenchContributions ph) s1"]
    show ?thesis by auto
  next
    case Ready
    with Some have "doInstantiateByPhase ph s = mark (DidCreateWorkbenchContributions ph)
        (instantiateAll cs ph (mark (WillCreateWorkbenchContributions ph) s1))"
      by (simp add: doInstantiateByPhase_result s1_def)
    with cs s1 instantiateAll_calls_subset [of cs ph "mark (WillCreateWorkbenchContributions ph) s1"]
    show ?thesis by auto
  next
    case Restored
    with Some have "doInstantiateByPhase ph s = doInstantiateWhenIdle cs ph s1"
      by (simp add: doInstantiateByPhase_result s1_def)
    moreover have "scheduled (doInstantiateWhenIdle cs ph s1) = scheduled s1 \<union> set cs"
      by (auto simp: scheduled_def pending_def)
    ultimately show ?thesis
      using cs s1 by auto
  next
    case Eventually
    with Some have "doInstantiateByPhase ph s = s1\<lparr>awaitingRestored := awaitingRestored s1 @ [cs]\<rparr>"
      by (simp add: doInstantiateByPhase_result s1_def)
    moreover have "scheduled (s1\<lparr>awaitingRestored := awaitingRestored s1 @ [cs]\<rparr>) = scheduled s1 \<union> set cs"
      by (auto simp: scheduled_def pending_def)
    moreover have "factory_calls (s1\<lparr>awaitingRestored := awaitingRestored s1 @ [cs]\<rparr>) = factory_calls s1"
      by (simp add: factory_calls_def)
    ultimately show ?thesis
      using cs s1 by auto
  qed
qed

lemma instantiateByPhase_progress:
  "set (factory_calls (instantiateByPhase ph s)) \<union> scheduled (instantiateByPhase ph s)
     \<subseteq> set (factory_calls s) \<union> scheduled s"
proof (cases "phase_num ph \<le> phase_num (lifecyclePhase s)")
  case True
  then show ?thesis
    using doInstantiateByPhase_progress [of ph s] by (simp add: instantiateByPhase_def)
next
  case False
  then show ?thesis
    by (simp add: instantiateByPhase_def scheduled_def pending_def factory_calls_def)
qed

lemma start_progress:
  "set (factory_calls (start s)) \<union> scheduled (start s) \<subseteq> set (factory_calls s) \<union> scheduled s"
proof -
  let ?s0 = "s\<lparr>started := True\<rparr>"
  let ?s1 = "instantiateByPhase Starting ?s0"
  let ?s2 = "instantiateByPhase Ready ?s1"
  let ?s3 = "instantiateByPhase Restored ?s2"
  have "set (factory_calls ?s0) \<union> scheduled ?s0 = set (factory_calls s) \<union> scheduled s"
    by (simp add: scheduled_def pending_def factory_calls_def)
  with instantiateByPhase_progress [of Starting ?s0] instantiateByPhase_progress [of Ready ?s1]
    instantiateByPhase_progress [of Restored ?s2] instantiateByPhase_progress [of Eventually ?s3]
  show ?thesis
    unfolding start_unfold by blast
qed

lemma step_progress:
  assumes "progression e"
  shows "set (factory_calls (step e s)) \<union> scheduled (step e s)
           \<subseteq> set (factory_calls s) \<union> scheduled s"
proof (cases "enabled e s")
  case False
  then show ?thesis by (simp add: step_def)
next
  case en: True
  have "set (factory_calls (exec e s)) \<union> scheduled (exec e s)
          \<subseteq> set (factory_calls s) \<union> scheduled s"
  proof (cases e)
    case (Register2 i k inst)
    with assms show ?thesis by simp
  next
    case (Register k ph)
    with assms show ?thesis by simp
  next
    case (Get i)
    with assms show ?thesis by simp
  next
    case Start
    then show ?thesis using start_progress [of s] by simp
  next
    case (SetPhase ph)
    then show ?thesis
      by (simp add: scheduled_def pending_def factory_calls_def)
  next
    case (PhaseReached k)
    let ?s0 = "s\<lparr>phaseWaiters := take k (phaseWaiters s) @ drop (Suc k) (phaseWaiters s)\<rparr>"
    have "set (factory_calls ?s0) \<union> scheduled ?s0 = set (factory_calls s) \<union> scheduled s"
      by (simp add: scheduled_def pending_def factory_calls_def)
    with doInstantiateByPhase_progress [of "phaseWaiters s ! k" ?s0] PhaseReached
    show ?thesis by simp
  next
    case (RestoredAwaited k)
    from en RestoredAwaited have k: "k < length (awaitingRestored s)" by simp
    then have "set (awaitingRestored s ! k) \<subseteq> scheduled s"
      by (auto simp: scheduled_def)
    moreover have "set (take k (awaitingRestored s) @ drop (Suc k) (awaitingRestored s))
                     \<subseteq> set (awaitingRestored s)"
      by (rule set_remove_nth)
    ultimately show ?thesis
      using RestoredAwaited
      by (auto simp: resumeEventually_def scheduled_def pending_def factory_calls_def
          doInstantiateWhenIdle_def runWhenGlobalIdle_def mark_def emit_def)
  next
    case (IdleSlice k idle)
    let ?s0 = "s\<lparr>idleQueue := take k (idleQueue s) @ drop (Suc k) (idleQueue s)\<rparr>"
    from en IdleSlice have k: "k < length (idleQueue s)" by simp
    then have t: "set (task_contributions (idleQueue s ! k)) \<subseteq> scheduled s"
      by (auto simp: scheduled_def)
    have "scheduled ?s0 \<subseteq> scheduled s"
      using set_remove_nth [of k "idleQueue s"] by (auto simp: scheduled_def pending_def)
    moreover have "factory_calls ?s0 = factory_calls s"
      by (simp add: factory_calls_def)
    ultimately show ?thesis
      using instantiateSome_progress [of "idleQueue s ! k" idle ?s0] t IdleSlice by auto
  qed
  with en show ?thesis by (simp add: step_def)
qed

lemma run_progress:
  "\<forall>e \<in> set es. progression e \<Longrightarrow>
     set (factory_calls (run es s)) \<union> scheduled (run es s) \<subseteq> set (factory_calls s) \<union> scheduled s"
proof (induction es rule: rev_induct)
  case Nil
  show ?case by simp
next
  case (snoc e es)
  then have "set (factory_calls (run es s)) \<union> scheduled (run es s)
               \<subseteq> set (factory_calls s) \<union> scheduled s"
    by simp
  moreover from snoc.prems have "progression e" by simp
  from step_progress [OF this, of "run es s"]
  have "set (factory_calls (run (es @ [e]) s)) \<union> scheduled (run (es @ [e]) s)
          \<subseteq> set (factory_calls (run es s)) \<union> scheduled (run es s)"
    by (simp add: run_snoc)
  ultimately show ?case by blast
qed

subsection \<open>Completion after a Restored batch\<close>

lemma restored_batch_resolves:
  assumes "idleQueue s = [t]" "task_phase t = Restored"
    "task_i t \<le> length (task_contributions t)" "whenRestored s \<noteq> Rejected"
    "drain fuel ds n s = Some (k, s')"
  shows "whenRestored s' = Resolved"
  using assms
proof (induction fuel arbitrary: s t n)
  case 0
  then show ?case by simp
next
  case (Suc fuel)
  let ?s0 = "s\<lparr>idleQueue := []\<rparr>"
  let ?s1 = "step (IdleSlice 0 (ds n)) s"
  have st: "?s1 = instantiateSome t (ds n) ?s0"
    using Suc.prems(1) by (simp add: step_def)
  have dr: "drain fuel ds (Suc n) ?s1 = Some (k, s')"
    using Suc.prems(1,5) by simp
  show ?case
  proof (cases "first_stop (ds n) 0 (length (task_contributions t) - task_i t)")
    case None
    with Suc.prems(2,3,4) have "whenRestored ?s1 = Resolved" "idleQueue ?s1 = []"
      unfolding st by (cases "whenRestored s"; simp add: instantiateSome_result Let_def)+
    with dr show ?thesis
      by (simp add: drain_empty)
  next
    case (Some m)
    from first_stop_bounds [OF Some] Suc.prems(3)
    have m: "task_i t + m \<le> length (task_contributions t)" by linarith
    from Some have q: "idleQueue ?s1 = [t\<lparr>task_i := task_i t + m\<rparr>]"
      unfolding st by (simp add: instantiateSome_result Let_def)
    from instantiateSome_whenRestored [of t "ds n" ?s0] Suc.prems(4)
    have w: "whenRestored ?s1 \<noteq> Rejected"
      unfolding st by auto
    from Suc.IH [OF q _ _ w dr] Suc.prems(2) m show ?thesis
      by simp
  qed
qed

section \<open>Specified properties\<close>

subsection \<open>Phase mapping\<close>

text \<open>
  C10: for every lifecycle phase \<open>p\<close>, \<open>toPhase (toInstantiation p) = p\<close>, and the
  deprecated \<open>registerWorkbenchContribution(ctor, p)\<close> has the same effect on every
  registry state as \<open>registerWorkbenchContribution2(undefined, ctor, toInstantiation(p))\<close>.
\<close>

theorem toPhase_toInstantiation_and_deprecated_register:
  "toPhase (toInstantiation p) = Some p
   \<and> registerWorkbenchContribution k p s
       = registerWorkbenchContribution2 None k (toInstantiation p) s"
  by (cases p) (simp_all add: registerWorkbenchContribution_def)

subsection \<open>Anonymous lazy registrations\<close>

text \<open>
  C9: \<open>registerWorkbenchContribution2(undefined, ctor, Lazy)\<close> leaves the whole registry
  state unchanged (both indexes, the instance cache, the timing log, the completion
  signal, and the calls made to collaborators, so no factory is invoked), and every
  later execution is the one that would have happened without the call.
\<close>

theorem register2_lazy_anonymous_is_noop:
  "registerWorkbenchContribution2 None k Lazy s = s
   \<and> run (Register2 None k Lazy # es) s = run es s"
  by (simp add: registerWorkbenchContribution2_def run_def step_def)

subsection \<open>Lookup\<close>

text \<open>
  C5: in every reachable state, \<open>getWorkbenchContribution(id)\<close> returns the cached
  instance and changes nothing when one exists; otherwise it throws "not started"
  exactly when \<open>start\<close> has not been called; otherwise "unknown contribution" exactly
  when no descriptor is indexed under the id; otherwise it warns when the current phase
  is before \<open>Restored\<close>, calls the factory once with the current phase, and returns the
  new instance, or throws "failed to create" exactly when the factory threw; the
  factory's failure is only logged.
\<close>

theorem getWorkbenchContribution_cases:
  fixes es thr el built i
  defines "s \<equiv> run es (init thr el built)"
  shows
  "(\<forall>inst. instancesById s i = Some inst \<longrightarrow> getWorkbenchContribution i s = (Inr inst, s))
   \<and> (instancesById s i = None \<longrightarrow>
        (\<not> started s \<longrightarrow> getWorkbenchContribution i s = (Inl (NotStarted i), s))
      \<and> (started s \<longrightarrow> fst (getWorkbenchContribution i s) \<noteq> Inl (NotStarted i))
      \<and> (started s \<and> contributionsById s i = None \<longrightarrow>
            getWorkbenchContribution i s = (Inl (UnknownContribution i), s))
      \<and> (\<forall>r. started s \<and> contributionsById s i = Some r \<longrightarrow>
            (let ph = lifecyclePhase s; n = factoryCalls s; time = createElapsed s n;
                 res = getWorkbenchContribution i s
             in fst res \<noteq> Inl (UnknownContribution i)
              \<and> trace (snd res) = trace s
                   @ (if phase_num ph < phase_num Restored then [LogWarnLazyEarly i] else [])
                   @ [Mark (WillCreateWorkbenchContribution ph i), CreateInstance r]
                   @ (if createThrows s n then [LogError i] else [])
                   @ [Mark (DidCreateWorkbenchContribution ph i)]
                   @ (if time > (if phase_num ph < phase_num Restored then 20 else 100)
                      then [LogWarnSlow i time] else [])
              \<and> timingsByPhase (snd res) ph
                   = Some ((case timingsByPhase s ph of None \<Rightarrow> [] | Some ts \<Rightarrow> ts) @ [(i, time)])
              \<and> (createThrows s n \<longrightarrow>
                    fst res = Inl (FailedToCreate i)
                  \<and> instancesById (snd res) i = None
                  \<and> contributionsById (snd res) i = Some r)
              \<and> (\<not> createThrows s n \<longrightarrow>
                    fst res = Inr (Instance (reg_ctor r) n)
                  \<and> instancesById (snd res) i = Some (Instance (reg_ctor r) n)
                  \<and> contributionsById (snd res) i = None))))"
proof -
  have wf: "byId_wf s"
    unfolding s_def by (rule run_byId_wf [OF init_byId_wf])
  have g: "\<not> guarded r s'" if "contributionsById s i = Some r" "instancesById s' i = None" for r s'
    using wf that by (auto simp: byId_wf_def guarded_def)
  have rid: "reg_id r = Some i" if "contributionsById s i = Some r" for r
    using wf that by (auto simp: byId_wf_def)
  show ?thesis
    by (auto simp: getWorkbenchContribution_def Let_def safeCreate_unfold g rid
        create_effects_def warn_threshold_def display_name_def
        split: option.splits)
qed

text \<open>A lazy contribution looked up after \<open>start\<close>, in phase \<open>Starting\<close>.\<close>

theorem getWorkbenchContribution_cases_witness:
  "instancesById (run [Register2 (Some ''a'') (Ctor ''A'') Lazy, Start]
                    (init (\<lambda>_. False) (\<lambda>_. 0) False)) ''a'' = None
   \<and> started (run [Register2 (Some ''a'') (Ctor ''A'') Lazy, Start]
                 (init (\<lambda>_. False) (\<lambda>_. 0) False))
   \<and> contributionsById (run [Register2 (Some ''a'') (Ctor ''A'') Lazy, Start]
                           (init (\<lambda>_. False) (\<lambda>_. 0) False)) ''a''
       = Some \<lparr>reg_id = Some ''a'', reg_ctor = Ctor ''A''\<rparr>
   \<and> fst (getWorkbenchContribution ''a''
          (run [Register2 (Some ''a'') (Ctor ''A'') Lazy, Start] (init (\<lambda>_. False) (\<lambda>_. 0) False)))
     = Inr (Instance (Ctor ''A'') 0)"
proof -
  define s where "s = run [Register2 (Some ''a'') (Ctor ''A'') Lazy, Start]
                        (init (\<lambda>_. False) (\<lambda>_. 0) False)"
  have a: "instancesById s ''a'' = None" "started s"
    "contributionsById s ''a'' = Some \<lparr>reg_id = Some ''a'', reg_ctor = Ctor ''A''\<rparr>"
    "factoryCalls s = 0" "createThrows s = (\<lambda>_. False)"
    by (simp_all add: s_def eval_defs)
  from getWorkbenchContribution_cases
         [where i = "''a''" and es = "[Register2 (Some ''a'') (Ctor ''A'') Lazy, Start]"
            and thr = "\<lambda>_. False" and el = "\<lambda>_. 0" and built = False]
       a
  show ?thesis
    unfolding s_def [symmetric] by (simp add: Let_def)
qed

subsection \<open>Registration\<close>

text \<open>
  C6: for every registration, if \<open>start\<close> has occurred, the current phase is at least
  the phase of the policy and the policy is not \<open>Lazy\<close>, the registration is handed to
  \<open>safeCreateContribution\<close> at once (its factory is called unless its id already has an
  instance) and nothing is added to either index. In every other case no factory is
  called; a \<open>Lazy\<close> registration leaves the by-phase index alone, a phase-mapped one is
  appended to the pending sequence of its phase; and when an id is given the descriptor
  is entered in the by-id index, unless the id is indexed already, which is reported
  with \<open>console.error\<close> and leaves the by-id index as it is; either way the by-id
  index has an entry under the id afterwards. A \<open>Lazy\<close> registration adds
  nothing to what waits for a phase dispatch, and whatever phase progression follows,
  every factory it calls belongs to a descriptor that was waiting before.
\<close>

theorem register2_cases:
  "(let c = \<lparr>reg_id = i, reg_ctor = k\<rparr>; s' = registerWorkbenchContribution2 i k inst s
    in if inst \<noteq> Lazy \<and> started s \<and> inst_num inst \<le> phase_num (lifecyclePhase s)
       then (\<exists>ph. toPhase inst = Some ph \<and> s' = safeCreateContribution c ph s)
          \<and> contributionsByPhase s' = contributionsByPhase s
          \<and> (\<forall>j r. contributionsById s' j = Some r \<longrightarrow> contributionsById s j = Some r)
          \<and> factory_calls s' = factory_calls s @ (if guarded c s then [] else [c])
       else factory_calls s' = factory_calls s
          \<and> instancesById s' = instancesById s
          \<and> (case toPhase inst of
                None \<Rightarrow> inst = Lazy \<and> contributionsByPhase s' = contributionsByPhase s
              | Some ph \<Rightarrow> contributionsByPhase s' = (contributionsByPhase s)(ph \<mapsto> pending s ph @ [c]))
          \<and> (case i of
                None \<Rightarrow> contributionsById s' = contributionsById s \<and> trace s' = trace s
              | Some j \<Rightarrow>
                  if contributionsById s j = None
                  then contributionsById s' = (contributionsById s)(j \<mapsto> c) \<and> trace s' = trace s
                  else contributionsById s' = contributionsById s
                     \<and> trace s' = trace s @ [ConsoleError j])
          \<and> (\<forall>j. i = Some j \<longrightarrow> contributionsById s' j \<noteq> None)
          \<and> (inst = Lazy \<longrightarrow>
                scheduled s' = scheduled s
              \<and> (\<forall>es. (\<forall>e \<in> set es. progression e) \<longrightarrow>
                     set (factory_calls (run es s')) \<subseteq> set (factory_calls s) \<union> scheduled s)))"
proof (cases "inst \<noteq> Lazy \<and> started s \<and> inst_num inst \<le> phase_num (lifecyclePhase s)")
  case True
  then obtain ph where ph: "toPhase inst = Some ph"
    "registerWorkbenchContribution2 i k inst s
       = safeCreateContribution \<lparr>reg_id = i, reg_ctor = k\<rparr> ph s"
    using register2_inline by blast
  with True show ?thesis
    by (auto simp: Let_def safeCreate_factory_calls dest: safeCreate_byId_shrinks)
next
  case False
  let ?s' = "registerWorkbenchContribution2 i k inst s"
  from False have main: "factory_calls ?s' = factory_calls s
          \<and> instancesById ?s' = instancesById s
          \<and> (case toPhase inst of
                None \<Rightarrow> inst = Lazy \<and> contributionsByPhase ?s' = contributionsByPhase s
              | Some ph \<Rightarrow> contributionsByPhase ?s'
                  = (contributionsByPhase s)(ph \<mapsto> pending s ph @ [\<lparr>reg_id = i, reg_ctor = k\<rparr>]))
          \<and> (case i of
                None \<Rightarrow> contributionsById ?s' = contributionsById s \<and> trace ?s' = trace s
              | Some j \<Rightarrow>
                  if contributionsById s j = None
                  then contributionsById ?s' = (contributionsById s)(j \<mapsto> \<lparr>reg_id = i, reg_ctor = k\<rparr>)
                     \<and> trace ?s' = trace s
                  else contributionsById ?s' = contributionsById s
                     \<and> trace ?s' = trace s @ [ConsoleError j])"
    by (cases inst; cases i)
       (auto simp: register2_stored Let_def factory_calls_def)
  then have entry: "\<forall>j. i = Some j \<longrightarrow> contributionsById ?s' j \<noteq> None"
    by (auto split: if_splits)
  have lazy: "scheduled ?s' = scheduled s
              \<and> (\<forall>es. (\<forall>e \<in> set es. progression e) \<longrightarrow>
                     set (factory_calls (run es ?s')) \<subseteq> set (factory_calls s) \<union> scheduled s)"
    if "inst = Lazy"
  proof -
    from main that have bp: "contributionsByPhase ?s' = contributionsByPhase s"
      by simp
    have sc: "scheduled ?s' = scheduled s"
      by (rule scheduled_frame [OF bp]) simp_all
    from main have fc: "factory_calls ?s' = factory_calls s"
      by simp
    from run_progress [of _ ?s'] sc fc show ?thesis
      by auto
  qed
  from False main entry lazy show ?thesis
    unfolding Let_def by presburger
qed

text \<open>
  A registration for \<open>BlockRestore\<close> before \<open>start\<close> is stored in both indexes; the same
  registration after \<open>start\<close> in phase \<open>Ready\<close> calls the factory at once; and after a
  \<open>Lazy\<close> registration in the empty registry, \<open>start\<close> and the phase \<open>Ready\<close> call no
  factory.
\<close>

theorem register2_cases_witness:
  "contributionsByPhase
     (registerWorkbenchContribution2 (Some ''a'') (Ctor ''A'') BlockRestore
        (init (\<lambda>_. False) (\<lambda>_. 0) False)) Ready
     = Some [\<lparr>reg_id = Some ''a'', reg_ctor = Ctor ''A''\<rparr>]
   \<and> contributionsById
     (registerWorkbenchContribution2 (Some ''a'') (Ctor ''A'') BlockRestore
        (init (\<lambda>_. False) (\<lambda>_. 0) False)) ''a''
     = Some \<lparr>reg_id = Some ''a'', reg_ctor = Ctor ''A''\<rparr>
   \<and> factory_calls
     (registerWorkbenchContribution2 (Some ''a'') (Ctor ''A'') BlockRestore
        (run [Start, SetPhase Ready] (init (\<lambda>_. False) (\<lambda>_. 0) False)))
     = [\<lparr>reg_id = Some ''a'', reg_ctor = Ctor ''A''\<rparr>]
   \<and> factory_calls
     (run [Start, SetPhase Ready, PhaseReached 0]
        (registerWorkbenchContribution2 (Some ''z'') (Ctor ''Z'') Lazy
           (init (\<lambda>_. False) (\<lambda>_. 0) False)))
     = []"
proof -
  define s0 where "s0 = init (\<lambda>_. False) (\<lambda>_. 0) False"
  define s1 where "s1 = run [Start, SetPhase Ready] s0"
  have a: "\<not> started s0" "contributionsByPhase s0 = Map.empty" "contributionsById s0 = Map.empty"
    "factory_calls s0 = []" "scheduled s0 = {}"
    by (simp_all add: s0_def init_def factory_calls_def scheduled_def pending_def)
  have b: "started s1" "lifecyclePhase s1 = Ready" "instancesById s1 = Map.empty"
    "factory_calls s1 = []"
    by (simp_all add: s1_def s0_def eval_defs factory_calls_def)
  have p: "\<forall>e \<in> set [Start, SetPhase Ready, PhaseReached 0]. progression e"
    by simp
  from register2_cases [of "Some ''z''" "Ctor ''Z''" Lazy s0] a p
  have z: "factory_calls (run [Start, SetPhase Ready, PhaseReached 0]
             (registerWorkbenchContribution2 (Some ''z'') (Ctor ''Z'') Lazy s0)) = []"
    unfolding Let_def by simp
  from register2_cases [of "Some ''a''" "Ctor ''A''" BlockRestore s0] a
       register2_cases [of "Some ''a''" "Ctor ''A''" BlockRestore s1] b
  have "contributionsByPhase
     (registerWorkbenchContribution2 (Some ''a'') (Ctor ''A'') BlockRestore s0) Ready
     = Some [\<lparr>reg_id = Some ''a'', reg_ctor = Ctor ''A''\<rparr>]
   \<and> contributionsById
     (registerWorkbenchContribution2 (Some ''a'') (Ctor ''A'') BlockRestore s0) ''a''
     = Some \<lparr>reg_id = Some ''a'', reg_ctor = Ctor ''A''\<rparr>
   \<and> factory_calls
     (registerWorkbenchContribution2 (Some ''a'') (Ctor ''A'') BlockRestore s1)
     = [\<lparr>reg_id = Some ''a'', reg_ctor = Ctor ''A''\<rparr>]"
    by (auto simp: Let_def pending_def guarded_def)
  with z show ?thesis
    unfolding s1_def s0_def by simp
qed

subsection \<open>Restored before Eventually\<close>

text \<open>
  C2, as the code has it: in every reachable state, an idle callback of the
  \<open>Eventually\<close> batch is scheduled only when the Restored-completion signal has
  completed, so every idle slice that constructs contributions of that batch runs after
  the completion, and the suspended dispatch of the batch resumes only then; once
  completed the signal stays completed. (The inline path of a registration and a lookup
  by id construct at once, whatever the signal.)
\<close>

theorem eventually_batch_waits_for_restored:
  fixes es thr el built
  defines "s \<equiv> run es (init thr el built)"
  shows
  "(\<forall>t \<in> set (idleQueue s). task_phase t = Eventually \<longrightarrow> whenRestored s = Resolved)
   \<and> (\<forall>k idle. enabled (IdleSlice k idle) s \<and> task_phase (idleQueue s ! k) = Eventually
         \<longrightarrow> whenRestored s = Resolved)
   \<and> (\<forall>k. enabled (RestoredAwaited k) s \<longrightarrow> whenRestored s = Resolved)
   \<and> (whenRestored s = Resolved \<longrightarrow> (\<forall>fs. whenRestored (run fs s) = Resolved))"
proof -
  have g: "eventually_gated s"
    unfolding s_def by (rule run_eventually_gated [OF init_eventually_gated])
  have m: "whenRestored (run fs s) = Resolved" if "whenRestored s = Resolved" for fs
    using that
    by (induction fs rule: rev_induct) (simp_all add: run_snoc step_def exec_resolved_mono)
  from g m show ?thesis
    by (auto simp: eventually_gated_def)
qed

text \<open>
  Two contributions, one for \<open>Restored\<close> and one for \<open>Eventually\<close>, with no idle time
  left in any slice: when the \<open>Eventually\<close> batch is scheduled the signal has completed.
\<close>

theorem eventually_batch_waits_for_restored_witness:
  "idleQueue (run [Register2 (Some ''r'') (Ctor ''R'') AfterRestored,
                   Register2 (Some ''e'') (Ctor ''E'') Eventually',
                   SetPhase Ready, SetPhase Restored, SetPhase Eventually, Start,
                   IdleSlice 0 (\<lambda>_. 0), RestoredAwaited 0, IdleSlice 0 (\<lambda>_. 0)]
              (init (\<lambda>_. False) (\<lambda>_. 0) False))
     = [\<lparr>task_contributions = [\<lparr>reg_id = Some ''e'', reg_ctor = Ctor ''E''\<rparr>], task_i = 0,
         task_phase = Eventually, task_timeout = 3000\<rparr>]
   \<and> whenRestored (run [Register2 (Some ''r'') (Ctor ''R'') AfterRestored,
                   Register2 (Some ''e'') (Ctor ''E'') Eventually',
                   SetPhase Ready, SetPhase Restored, SetPhase Eventually, Start,
                   IdleSlice 0 (\<lambda>_. 0), RestoredAwaited 0, IdleSlice 0 (\<lambda>_. 0)]
              (init (\<lambda>_. False) (\<lambda>_. 0) False)) = Resolved"
proof -
  define es where "es = [Register2 (Some ''r'') (Ctor ''R'') AfterRestored,
                   Register2 (Some ''e'') (Ctor ''E'') Eventually',
                   SetPhase Ready, SetPhase Restored, SetPhase Eventually, Start,
                   IdleSlice 0 (\<lambda>_. 0), RestoredAwaited 0, IdleSlice 0 (\<lambda>_. 0)]"
  have q: "idleQueue (run es (init (\<lambda>_. False) (\<lambda>_. 0) False))
     = [\<lparr>task_contributions = [\<lparr>reg_id = Some ''e'', reg_ctor = Ctor ''E''\<rparr>], task_i = 0,
         task_phase = Eventually, task_timeout = 3000\<rparr>]"
    unfolding es_def by code_simp
  from eventually_batch_waits_for_restored
         [where es = es and thr = "\<lambda>_. False" and el = "\<lambda>_. 0" and built = False] q
  show ?thesis
    unfolding es_def [symmetric] by simp
qed

text \<open>
  The claim as stated fails on the inline path: the \<open>Restored\<close> batch is scheduled but
  has not run when the phase becomes \<open>Eventually\<close> and a contribution is registered for
  \<open>Eventually\<close>; its factory is called at once, while the signal is pending.
\<close>

theorem eventually_inline_before_restored_counterexample:
  "factory_calls (run [Register2 (Some ''r'') (Ctor ''R'') AfterRestored, Start,
                       SetPhase Ready, PhaseReached 0, SetPhase Restored, PhaseReached 0,
                       SetPhase Eventually, PhaseReached 0,
                       Register2 (Some ''e'') (Ctor ''E'') Eventually']
                  (init (\<lambda>_. False) (\<lambda>_. 0) False))
     = [\<lparr>reg_id = Some ''e'', reg_ctor = Ctor ''E''\<rparr>]
   \<and> whenRestored (run [Register2 (Some ''r'') (Ctor ''R'') AfterRestored, Start,
                       SetPhase Ready, PhaseReached 0, SetPhase Restored, PhaseReached 0,
                       SetPhase Eventually, PhaseReached 0,
                       Register2 (Some ''e'') (Ctor ''E'') Eventually']
                  (init (\<lambda>_. False) (\<lambda>_. 0) False)) = Pending"
  by code_simp

subsection \<open>At most one instance per id\<close>

text \<open>
  C4, as the code has it: once an instance exists for an id,
  \<open>getWorkbenchContribution\<close> returns that identical instance and changes nothing, and
  over every later interleaving of registrations, lookups, phase dispatches and idle
  slices the instance stays the same and no factory is called for that id again. While
  no instance exists (for one, after a construction attempt that failed) a lookup after
  \<open>start\<close> calls the factory of the indexed descriptor, each time it is made.
\<close>

theorem instance_created_at_most_once:
  "(instancesById s i = Some v \<longrightarrow>
      getWorkbenchContribution i s = (Inr v, s)
    \<and> (\<forall>es. instancesById (run es s) i = Some v
            \<and> factory_calls_for i (run es s) = factory_calls_for i s
            \<and> getWorkbenchContribution i (run es s) = (Inr v, run es s)))
   \<and> (\<forall>c. byId_wf s \<and> instancesById s i = None \<and> started s \<and> contributionsById s i = Some c
         \<longrightarrow> factory_calls_for i (snd (getWorkbenchContribution i s)) = factory_calls_for i s @ [c])"
  by (simp add: get_cached run_instances_mono get_forced_calls_for)

text \<open>
  A lazy contribution created by a first lookup: two more lookups and a phase change
  leave its instance and its single factory call as they are.
\<close>

theorem instance_created_at_most_once_witness:
  "instancesById (run [Register2 (Some ''a'') (Ctor ''A'') Lazy, Start, Get ''a'']
                    (init (\<lambda>_. False) (\<lambda>_. 0) False)) ''a''
     = Some (Instance (Ctor ''A'') 0)
   \<and> factory_calls_for ''a''
       (run [Get ''a'', SetPhase Ready, Get ''a'']
          (run [Register2 (Some ''a'') (Ctor ''A'') Lazy, Start, Get ''a'']
             (init (\<lambda>_. False) (\<lambda>_. 0) False)))
     = [\<lparr>reg_id = Some ''a'', reg_ctor = Ctor ''A''\<rparr>]"
proof -
  define s where "s = run [Register2 (Some ''a'') (Ctor ''A'') Lazy, Start, Get ''a'']
                        (init (\<lambda>_. False) (\<lambda>_. 0) False)"
  have a: "instancesById s ''a'' = Some (Instance (Ctor ''A'') 0)"
    unfolding s_def by code_simp
  have b: "factory_calls_for ''a'' s = [\<lparr>reg_id = Some ''a'', reg_ctor = Ctor ''A''\<rparr>]"
    unfolding s_def by code_simp
  from instance_created_at_most_once [of s "''a''" "Instance (Ctor ''A'') 0"] a b
  show ?thesis
    unfolding s_def [symmetric] by simp
qed

text \<open>
  The claim as stated fails when the factory fails: each of two lookups calls it.
\<close>

theorem factory_called_again_after_failure_counterexample:
  "factory_calls_for ''a''
     (run [Register2 (Some ''a'') (Ctor ''A'') Lazy, Start, Get ''a'', Get ''a'']
        (init (\<lambda>_. True) (\<lambda>_. 0) False))
     = [\<lparr>reg_id = Some ''a'', reg_ctor = Ctor ''A''\<rparr>, \<lparr>reg_id = Some ''a'', reg_ctor = Ctor ''A''\<rparr>]
   \<and> fst (getWorkbenchContribution ''a''
       (run [Register2 (Some ''a'') (Ctor ''A'') Lazy, Start, Get ''a'']
          (init (\<lambda>_. True) (\<lambda>_. 0) False)))
     = Inl (FailedToCreate ''a'')"
  by code_simp

subsection \<open>The phase driver\<close>

text \<open>
  C7: \<open>start\<close> handles the phases in the order Starting, Ready, Restored, Eventually;
  a phase the current phase has reached is processed at once, for any other a
  continuation is registered, which runs once, when the phase is reached. Processing a
  phase with a pending sequence removes the sequence from the by-phase index first: for
  Starting and Ready the descriptors are then instantiated in order, with the entry
  absent all the while; for Restored the sequence is handed to an idle callback with
  forced timeout 500 and nothing is instantiated; for Eventually the dispatch is
  suspended on the completion signal, and resuming it hands the sequence to an idle
  callback with forced timeout 3000. Processing a phase without an entry does nothing.
\<close>

theorem start_processes_phases_in_order:
  "start s = instantiateByPhase Eventually (instantiateByPhase Restored
               (instantiateByPhase Ready (instantiateByPhase Starting (s\<lparr>started := True\<rparr>))))
   \<and> (\<forall>ph. instantiateByPhase ph s =
          (if phase_num ph \<le> phase_num (lifecyclePhase s) then doInstantiateByPhase ph s
           else s\<lparr>phaseWaiters := phaseWaiters s @ [ph]\<rparr>))
   \<and> phaseWaiters (start s) =
        phaseWaiters s @ filter (\<lambda>ph. phase_num (lifecyclePhase s) < phase_num ph)
                           [Starting, Ready, Restored, Eventually]
   \<and> (\<forall>ph. contributionsByPhase (start s) ph =
          (if phase_num ph \<le> phase_num (lifecyclePhase s) then None
           else contributionsByPhase s ph))
   \<and> (\<forall>k. enabled (PhaseReached k) s \<longrightarrow>
          phase_num (phaseWaiters s ! k) \<le> phase_num (lifecyclePhase s)
        \<and> step (PhaseReached k) s =
            doInstantiateByPhase (phaseWaiters s ! k)
              (s\<lparr>phaseWaiters := take k (phaseWaiters s) @ drop (Suc k) (phaseWaiters s)\<rparr>)
        \<and> Suc (length (phaseWaiters (step (PhaseReached k) s))) = length (phaseWaiters s))
   \<and> (\<forall>ph. contributionsByPhase s ph = None \<longrightarrow> doInstantiateByPhase ph s = s)
   \<and> (\<forall>ph cs. contributionsByPhase s ph = Some cs \<longrightarrow>
        (let s1 = s\<lparr>contributionsByPhase := (contributionsByPhase s)(ph := None)\<rparr>
         in doInstantiateByPhase ph s =
              (case ph of
                 Starting \<Rightarrow> mark (DidCreateWorkbenchContributions ph)
                   (instantiateAll cs ph (mark (WillCreateWorkbenchContributions ph) s1))
               | Ready \<Rightarrow> mark (DidCreateWorkbenchContributions ph)
                   (instantiateAll cs ph (mark (WillCreateWorkbenchContributions ph) s1))
               | Restored \<Rightarrow> doInstantiateWhenIdle cs ph s1
               | Eventually \<Rightarrow> s1\<lparr>awaitingRestored := awaitingRestored s1 @ [cs]\<rparr>)
          \<and> (\<forall>n. contributionsByPhase
                    (instantiateAll (take n cs) ph (mark (WillCreateWorkbenchContributions ph) s1)) ph
                  = None)
          \<and> (ph = Restored \<longrightarrow>
                factory_calls (doInstantiateByPhase ph s) = factory_calls s
              \<and> idleQueue (doInstantiateByPhase ph s) =
                  idleQueue s @ [\<lparr>task_contributions = cs, task_i = 0, task_phase = Restored,
                                  task_timeout = 500\<rparr>])
          \<and> (ph = Eventually \<longrightarrow>
                factory_calls (doInstantiateByPhase ph s) = factory_calls s
              \<and> idleQueue (doInstantiateByPhase ph s) = idleQueue s
              \<and> idleQueue (resumeEventually (length (awaitingRestored s))
                             (doInstantiateByPhase ph s)) =
                  idleQueue s @ [\<lparr>task_contributions = cs, task_i = 0, task_phase = Eventually,
                                  task_timeout = 3000\<rparr>])))"
proof (intro conjI allI impI)
  show "start s = instantiateByPhase Eventually (instantiateByPhase Restored
               (instantiateByPhase Ready (instantiateByPhase Starting (s\<lparr>started := True\<rparr>))))"
    by (rule start_unfold)
next
  fix ph
  show "instantiateByPhase ph s =
          (if phase_num ph \<le> phase_num (lifecyclePhase s) then doInstantiateByPhase ph s
           else s\<lparr>phaseWaiters := phaseWaiters s @ [ph]\<rparr>)"
    by (simp add: instantiateByPhase_def)
next
  show "phaseWaiters (start s) =
        phaseWaiters s @ filter (\<lambda>ph. phase_num (lifecyclePhase s) < phase_num ph)
                           [Starting, Ready, Restored, Eventually]"
    by (rule start_phaseWaiters)
next
  fix ph
  show "contributionsByPhase (start s) ph =
          (if phase_num ph \<le> phase_num (lifecyclePhase s) then None
           else contributionsByPhase s ph)"
    by (rule start_byPhase)
next
  fix k assume "enabled (PhaseReached k) s"
  then show "phase_num (phaseWaiters s ! k) \<le> phase_num (lifecyclePhase s)"
    by simp
next
  fix k assume "enabled (PhaseReached k) s"
  then show "step (PhaseReached k) s =
            doInstantiateByPhase (phaseWaiters s ! k)
              (s\<lparr>phaseWaiters := take k (phaseWaiters s) @ drop (Suc k) (phaseWaiters s)\<rparr>)"
    by (simp add: step_def)
next
  fix k assume "enabled (PhaseReached k) s"
  then show "Suc (length (phaseWaiters (step (PhaseReached k) s))) = length (phaseWaiters s)"
    by (auto simp: step_def)
next
  fix ph assume "contributionsByPhase s ph = None"
  then show "doInstantiateByPhase ph s = s"
    by (simp add: doInstantiateByPhase_def)
next
  fix ph cs assume cs: "contributionsByPhase s ph = Some cs"
  define s1 where "s1 = s\<lparr>contributionsByPhase := (contributionsByPhase s)(ph := None)\<rparr>"
  have a: "doInstantiateByPhase ph s =
              (case ph of
                 Starting \<Rightarrow> mark (DidCreateWorkbenchContributions ph)
                   (instantiateAll cs ph (mark (WillCreateWorkbenchContributions ph) s1))
               | Ready \<Rightarrow> mark (DidCreateWorkbenchContributions ph)
                   (instantiateAll cs ph (mark (WillCreateWorkbenchContributions ph) s1))
               | Restored \<Rightarrow> doInstantiateWhenIdle cs ph s1
               | Eventually \<Rightarrow> s1\<lparr>awaitingRestored := awaitingRestored s1 @ [cs]\<rparr>)"
    using cs by (cases ph) (simp_all add: doInstantiateByPhase_result s1_def Let_def)
  have b: "contributionsByPhase
             (instantiateAll (take n cs) ph (mark (WillCreateWorkbenchContributions ph) s1)) ph
           = None" for n
    by (simp add: s1_def)
  have c: "factory_calls (doInstantiateByPhase ph s) = factory_calls s
         \<and> idleQueue (doInstantiateByPhase ph s) =
             idleQueue s @ [\<lparr>task_contributions = cs, task_i = 0, task_phase = Restored,
                             task_timeout = 500\<rparr>]" if "ph = Restored"
    using that cs by (simp add: doInstantiateByPhase_result Let_def factory_calls_def)
  have d: "factory_calls (doInstantiateByPhase ph s) = factory_calls s
         \<and> idleQueue (doInstantiateByPhase ph s) = idleQueue s
         \<and> idleQueue (resumeEventually (length (awaitingRestored s))
                        (doInstantiateByPhase ph s)) =
             idleQueue s @ [\<lparr>task_contributions = cs, task_i = 0, task_phase = Eventually,
                             task_timeout = 3000\<rparr>]" if "ph = Eventually"
    using that cs by (simp add: doInstantiateByPhase_result Let_def factory_calls_def)
  from a b c d
  show "let s1 = s\<lparr>contributionsByPhase := (contributionsByPhase s)(ph := None)\<rparr>
         in doInstantiateByPhase ph s =
              (case ph of
                 Starting \<Rightarrow> mark (DidCreateWorkbenchContributions ph)
                   (instantiateAll cs ph (mark (WillCreateWorkbenchContributions ph) s1))
               | Ready \<Rightarrow> mark (DidCreateWorkbenchContributions ph)
                   (instantiateAll cs ph (mark (WillCreateWorkbenchContributions ph) s1))
               | Restored \<Rightarrow> doInstantiateWhenIdle cs ph s1
               | Eventually \<Rightarrow> s1\<lparr>awaitingRestored := awaitingRestored s1 @ [cs]\<rparr>)
          \<and> (\<forall>n. contributionsByPhase
                    (instantiateAll (take n cs) ph (mark (WillCreateWorkbenchContributions ph) s1)) ph
                  = None)
          \<and> (ph = Restored \<longrightarrow>
                factory_calls (doInstantiateByPhase ph s) = factory_calls s
              \<and> idleQueue (doInstantiateByPhase ph s) =
                  idleQueue s @ [\<lparr>task_contributions = cs, task_i = 0, task_phase = Restored,
                                  task_timeout = 500\<rparr>])
          \<and> (ph = Eventually \<longrightarrow>
                factory_calls (doInstantiateByPhase ph s) = factory_calls s
              \<and> idleQueue (doInstantiateByPhase ph s) = idleQueue s
              \<and> idleQueue (resumeEventually (length (awaitingRestored s))
                             (doInstantiateByPhase ph s)) =
                  idleQueue s @ [\<lparr>task_contributions = cs, task_i = 0, task_phase = Eventually,
                                  task_timeout = 3000\<rparr>])"
    unfolding Let_def s1_def [symmetric] by blast
qed

text \<open>
  One contribution registered for \<open>BlockStartup\<close> before \<open>start\<close> in phase
  \<open>Starting\<close>: its phase is processed at once, the other three wait.
\<close>

theorem start_processes_phases_in_order_witness:
  "contributionsByPhase
     (registerWorkbenchContribution2 (Some ''a'') (Ctor ''A'') BlockStartup
        (init (\<lambda>_. False) (\<lambda>_. 0) False)) Starting
     = Some [\<lparr>reg_id = Some ''a'', reg_ctor = Ctor ''A''\<rparr>]
   \<and> phaseWaiters
       (start (registerWorkbenchContribution2 (Some ''a'') (Ctor ''A'') BlockStartup
                 (init (\<lambda>_. False) (\<lambda>_. 0) False)))
     = [Ready, Restored, Eventually]
   \<and> contributionsByPhase
       (start (registerWorkbenchContribution2 (Some ''a'') (Ctor ''A'') BlockStartup
                 (init (\<lambda>_. False) (\<lambda>_. 0) False))) Starting
     = None
   \<and> contributionsByPhase
       (doInstantiateByPhase Starting
          (registerWorkbenchContribution2 (Some ''a'') (Ctor ''A'') BlockStartup
             (init (\<lambda>_. False) (\<lambda>_. 0) False))) Starting
     = None"
proof -
  define s where "s = registerWorkbenchContribution2 (Some ''a'') (Ctor ''A'') BlockStartup
                        (init (\<lambda>_. False) (\<lambda>_. 0) False)"
  have a: "contributionsByPhase s Starting = Some [\<lparr>reg_id = Some ''a'', reg_ctor = Ctor ''A''\<rparr>]"
    "lifecyclePhase s = Starting" "phaseWaiters s = []"
    unfolding s_def by code_simp+
  note T = start_processes_phases_in_order [of s]
  from T have "phaseWaiters (start s) =
        phaseWaiters s @ filter (\<lambda>ph. phase_num (lifecyclePhase s) < phase_num ph)
                           [Starting, Ready, Restored, Eventually]"
    by (elim conjE)
  with a have w: "phaseWaiters (start s) = [Ready, Restored, Eventually]"
    by simp
  from T have "\<forall>ph. contributionsByPhase (start s) ph =
          (if phase_num ph \<le> phase_num (lifecyclePhase s) then None
           else contributionsByPhase s ph)"
    by (elim conjE)
  with a have b: "contributionsByPhase (start s) Starting = None"
    by simp
  from T have "\<forall>ph cs. contributionsByPhase s ph = Some cs \<longrightarrow>
        (let s1 = s\<lparr>contributionsByPhase := (contributionsByPhase s)(ph := None)\<rparr>
         in doInstantiateByPhase ph s =
              (case ph of
                 Starting \<Rightarrow> mark (DidCreateWorkbenchContributions ph)
                   (instantiateAll cs ph (mark (WillCreateWorkbenchContributions ph) s1))
               | Ready \<Rightarrow> mark (DidCreateWorkbenchContributions ph)
                   (instantiateAll cs ph (mark (WillCreateWorkbenchContributions ph) s1))
               | Restored \<Rightarrow> doInstantiateWhenIdle cs ph s1
               | Eventually \<Rightarrow> s1\<lparr>awaitingRestored := awaitingRestored s1 @ [cs]\<rparr>)
          \<and> (\<forall>n. contributionsByPhase
                    (instantiateAll (take n cs) ph (mark (WillCreateWorkbenchContributions ph) s1)) ph
                  = None)
          \<and> (ph = Restored \<longrightarrow>
                factory_calls (doInstantiateByPhase ph s) = factory_calls s
              \<and> idleQueue (doInstantiateByPhase ph s) =
                  idleQueue s @ [\<lparr>task_contributions = cs, task_i = 0, task_phase = Restored,
                                  task_timeout = 500\<rparr>])
          \<and> (ph = Eventually \<longrightarrow>
                factory_calls (doInstantiateByPhase ph s) = factory_calls s
              \<and> idleQueue (doInstantiateByPhase ph s) = idleQueue s
              \<and> idleQueue (resumeEventually (length (awaitingRestored s))
                             (doInstantiateByPhase ph s)) =
                  idleQueue s @ [\<lparr>task_contributions = cs, task_i = 0, task_phase = Eventually,
                                  task_timeout = 3000\<rparr>]))"
    by (elim conjE)
  from this [rule_format, OF a(1)]
  have "doInstantiateByPhase Starting s =
          mark (DidCreateWorkbenchContributions Starting)
            (instantiateAll [\<lparr>reg_id = Some ''a'', reg_ctor = Ctor ''A''\<rparr>] Starting
               (mark (WillCreateWorkbenchContributions Starting)
                  (s\<lparr>contributionsByPhase := (contributionsByPhase s)(Starting := None)\<rparr>)))"
    by (simp add: Let_def)
  then have c: "contributionsByPhase (doInstantiateByPhase Starting s) Starting = None"
    by (simp del: doInstantiateByPhase_frame)
  from a(1) w b c show ?thesis
    unfolding s_def [symmetric] by simp
qed

subsection \<open>The idle runner\<close>

text \<open>
  C8, as the code has it. A batch handed to the idle runner is scheduled with forced
  timeout 3000 for \<open>Eventually\<close> and 500 otherwise. A slice of a batch with \<open>N\<close>
  descriptors left instantiates them one at a time in registration order and stops
  after the first one that is followed by a deadline report below 1; it then
  reschedules the same callback (same forced timeout), also when that descriptor was
  the last. So a slice instantiates at least one descriptor when one is left, and with
  no report below 1 it instantiates all that are left and does not reschedule. Under
  any scheduler the drain ends after at most \<open>N + 1\<close> slices with all descriptors
  instantiated in order; under a scheduler that never leaves a full time unit, \<open>j\<close>
  slices instantiate exactly the first \<open>j\<close> descriptors, all \<open>N\<close> are instantiated after
  \<open>N\<close> slices, and slice \<open>N + 1\<close> instantiates nothing and ends the drain.
\<close>

theorem idle_batch_drains:
  assumes "idleQueue s = [t]" and "task_i t \<le> length (task_contributions t)"
  shows
  "idleQueue (doInstantiateWhenIdle cs' ph' s) =
     idleQueue s @ [\<lparr>task_contributions = cs', task_i = 0, task_phase = ph',
                     task_timeout = (if ph' = Eventually then 3000 else 500)\<rparr>]
   \<and> (let cs = task_contributions t; i = task_i t; ph = task_phase t; N = length cs - i;
          s1 = step (IdleSlice 0 idle) s
      in (case first_stop idle 0 N of
            None \<Rightarrow> idleQueue s1 = [] \<and> same_data s1 (instantiateAll (drop i cs) ph s)
          | Some m \<Rightarrow>
              1 \<le> m \<and> m \<le> N \<and> idle (m - 1) < 1 \<and> (\<forall>k<m - 1. \<not> idle k < 1)
            \<and> idleQueue s1 = [t\<lparr>task_i := i + m\<rparr>]
            \<and> same_data s1 (instantiateAll (take m (drop i cs)) ph s))
       \<and> (first_stop idle 0 N = None \<longleftrightarrow> (\<forall>k<N. \<not> idle k < 1))
       \<and> (\<exists>k s'. drain (N + 1) ds n s = Some (n + k, s') \<and> 1 \<le> k \<and> k \<le> N + 1
             \<and> idleQueue s' = [] \<and> same_data s' (instantiateAll (drop i cs) ph s))
       \<and> ((\<forall>a q. ds a q < 1) \<longrightarrow>
             (\<forall>j\<le>N. idleQueue (slices ds n j s) = [t\<lparr>task_i := i + j\<rparr>]
                   \<and> same_data (slices ds n j s) (instantiateAll (take j (drop i cs)) ph s))
           \<and> idleQueue (slices ds n (N + 1) s) = []
           \<and> factory_calls (slices ds n (N + 1) s) = factory_calls (slices ds n N s)
           \<and> drain (N + 1) ds n s = Some (n + (N + 1), slices ds n (N + 1) s)))"
proof -
  let ?cs = "task_contributions t" and ?i = "task_i t" and ?ph = "task_phase t"
  let ?N = "length ?cs - ?i"
  let ?s1 = "step (IdleSlice 0 idle) s"
  have A: "idleQueue (doInstantiateWhenIdle cs' ph' s) =
     idleQueue s @ [\<lparr>task_contributions = cs', task_i = 0, task_phase = ph',
                     task_timeout = (if ph' = Eventually then 3000 else 500)\<rparr>]"
    by simp
  have B: "(case first_stop idle 0 ?N of
            None \<Rightarrow> idleQueue ?s1 = [] \<and> same_data ?s1 (instantiateAll (drop ?i ?cs) ?ph s)
          | Some m \<Rightarrow>
              1 \<le> m \<and> m \<le> ?N \<and> idle (m - 1) < 1 \<and> (\<forall>k<m - 1. \<not> idle k < 1)
            \<and> idleQueue ?s1 = [t\<lparr>task_i := ?i + m\<rparr>]
            \<and> same_data ?s1 (instantiateAll (take m (drop ?i ?cs)) ?ph s))"
  proof (cases "first_stop idle 0 ?N")
    case None
    with slice_single [OF assms(1) same_data_refl, of idle] show ?thesis
      by simp
  next
    case (Some m)
    with slice_single [OF assms(1) same_data_refl, of idle]
      first_stop_bounds [OF Some] first_stop_Some [OF Some]
    show ?thesis
      by simp
  qed
  have C: "first_stop idle 0 ?N = None \<longleftrightarrow> (\<forall>k<?N. \<not> idle k < 1)"
    by (simp add: first_stop_None)
  have D: "\<exists>k s'. drain (?N + 1) ds n s = Some (n + k, s') \<and> 1 \<le> k \<and> k \<le> ?N + 1
             \<and> idleQueue s' = [] \<and> same_data s' (instantiateAll (drop ?i ?cs) ?ph s)"
    by (rule drain_terminates [OF assms]) simp
  have E: "(\<forall>j\<le>?N. idleQueue (slices ds n j s) = [t\<lparr>task_i := ?i + j\<rparr>]
                   \<and> same_data (slices ds n j s) (instantiateAll (take j (drop ?i ?cs)) ?ph s))
           \<and> idleQueue (slices ds n (?N + 1) s) = []
           \<and> factory_calls (slices ds n (?N + 1) s) = factory_calls (slices ds n ?N s)
           \<and> drain (?N + 1) ds n s = Some (n + (?N + 1), slices ds n (?N + 1) s)"
    if nt: "\<forall>a q. ds a q < 1"
  proof -
    have J: "idleQueue (slices ds n j s) = [t\<lparr>task_i := ?i + j\<rparr>]
           \<and> same_data (slices ds n j s) (instantiateAll (take j (drop ?i ?cs)) ?ph s)"
      if "j \<le> ?N" for j
      using that assms(2) by (intro slices_no_time [OF assms(1) nt]) simp
    let ?sN = "slices ds n ?N s" and ?tN = "t\<lparr>task_i := ?i + ?N\<rparr>"
    from J [of ?N] have qN: "idleQueue ?sN = [?tN]"
      by simp
    from assms(2) have fs: "first_stop (ds (n + ?N)) 0 (length (task_contributions ?tN) - task_i ?tN) = None"
      by simp
    from slice_single [OF qN same_data_refl, of "ds (n + ?N)"] fs assms(2)
    have last: "idleQueue (slices ds n (Suc ?N) s) = []"
      "same_data (slices ds n (Suc ?N) s) ?sN"
      by (simp_all add: slices_Suc)
    have ne: "\<forall>j'<Suc ?N. idleQueue (slices ds n j' s) \<noteq> []"
      using J by simp
    from drain_slices [OF ne last(1) le_refl]
    have "drain (Suc ?N) ds n s = Some (n + Suc ?N, slices ds n (Suc ?N) s)" .
    with J last show ?thesis
      by (simp add: same_data_def)
  qed
  from A B C D E show ?thesis
    unfolding Let_def by blast
qed

text \<open>
  Two contributions for \<open>Restored\<close>, dispatched by \<open>start\<close>, and a scheduler that never
  leaves time: two slices instantiate both, the third ends the drain.
\<close>

theorem idle_batch_drains_witness:
  "idleQueue (run [Register2 (Some ''a'') (Ctor ''A'') AfterRestored,
                   Register2 (Some ''b'') (Ctor ''B'') AfterRestored,
                   SetPhase Ready, SetPhase Restored, Start]
              (init (\<lambda>_. False) (\<lambda>_. 0) False))
     = [\<lparr>task_contributions = [\<lparr>reg_id = Some ''a'', reg_ctor = Ctor ''A''\<rparr>,
                                \<lparr>reg_id = Some ''b'', reg_ctor = Ctor ''B''\<rparr>],
         task_i = 0, task_phase = Restored, task_timeout = 500\<rparr>]
   \<and> idleQueue (slices (\<lambda>_ _. 0) 0 2
        (run [Register2 (Some ''a'') (Ctor ''A'') AfterRestored,
              Register2 (Some ''b'') (Ctor ''B'') AfterRestored,
              SetPhase Ready, SetPhase Restored, Start]
           (init (\<lambda>_. False) (\<lambda>_. 0) False)))
     = [\<lparr>task_contributions = [\<lparr>reg_id = Some ''a'', reg_ctor = Ctor ''A''\<rparr>,
                                \<lparr>reg_id = Some ''b'', reg_ctor = Ctor ''B''\<rparr>],
         task_i = 2, task_phase = Restored, task_timeout = 500\<rparr>]
   \<and> idleQueue (slices (\<lambda>_ _. 0) 0 3
        (run [Register2 (Some ''a'') (Ctor ''A'') AfterRestored,
              Register2 (Some ''b'') (Ctor ''B'') AfterRestored,
              SetPhase Ready, SetPhase Restored, Start]
           (init (\<lambda>_. False) (\<lambda>_. 0) False)))
     = []"
proof -
  define s where "s = run [Register2 (Some ''a'') (Ctor ''A'') AfterRestored,
                   Register2 (Some ''b'') (Ctor ''B'') AfterRestored,
                   SetPhase Ready, SetPhase Restored, Start]
              (init (\<lambda>_. False) (\<lambda>_. 0) False)"
  define t where "t = \<lparr>task_contributions = [\<lparr>reg_id = Some ''a'', reg_ctor = Ctor ''A''\<rparr>,
                                \<lparr>reg_id = Some ''b'', reg_ctor = Ctor ''B''\<rparr>],
         task_i = 0, task_phase = Restored, task_timeout = 500\<rparr>"
  have q: "idleQueue s = [t]"
    unfolding s_def t_def by code_simp
  have i: "task_i t \<le> length (task_contributions t)"
    by (simp add: t_def)
  have N: "length (task_contributions t) - task_i t = 2"
    by (simp add: t_def)
  note T = idle_batch_drains [OF q i, where ds = "\<lambda>_ _. 0" and n = 0]
  from T have "(\<forall>j\<le>2. idleQueue (slices (\<lambda>_ _. 0) 0 j s) = [t\<lparr>task_i := task_i t + j\<rparr>])
       \<and> idleQueue (slices (\<lambda>_ _. 0) 0 3 s) = []"
    unfolding Let_def N by simp
  then have "idleQueue (slices (\<lambda>_ _. 0) 0 2 s) = [t\<lparr>task_i := 2\<rparr>]"
    "idleQueue (slices (\<lambda>_ _. 0) 0 3 s) = []"
    by (simp_all add: t_def)
  with q show ?thesis
    unfolding s_def [symmetric] by (simp add: t_def)
qed

text \<open>
  The claim as stated fails with one descriptor and no idle time: the slice that
  instantiates it reschedules although no descriptor is left, and the slice that
  follows instantiates none.
\<close>

theorem idle_reschedules_with_nothing_left_counterexample:
  "idleQueue (run [Register2 (Some ''r'') (Ctor ''R'') AfterRestored,
                   SetPhase Ready, SetPhase Restored, Start, IdleSlice 0 (\<lambda>_. 0)]
              (init (\<lambda>_. False) (\<lambda>_. 0) False))
     = [\<lparr>task_contributions = [\<lparr>reg_id = Some ''r'', reg_ctor = Ctor ''R''\<rparr>],
         task_i = 1, task_phase = Restored, task_timeout = 500\<rparr>]
   \<and> factory_calls (run [Register2 (Some ''r'') (Ctor ''R'') AfterRestored,
                   SetPhase Ready, SetPhase Restored, Start, IdleSlice 0 (\<lambda>_. 0)]
              (init (\<lambda>_. False) (\<lambda>_. 0) False))
     = [\<lparr>reg_id = Some ''r'', reg_ctor = Ctor ''R''\<rparr>]
   \<and> factory_calls (run [Register2 (Some ''r'') (Ctor ''R'') AfterRestored,
                   SetPhase Ready, SetPhase Restored, Start, IdleSlice 0 (\<lambda>_. 0),
                   IdleSlice 0 (\<lambda>_. 0)]
              (init (\<lambda>_. False) (\<lambda>_. 0) False))
     = [\<lparr>reg_id = Some ''r'', reg_ctor = Ctor ''R''\<rparr>]"
  by code_simp

subsection \<open>The Restored-completion signal\<close>

text \<open>
  C1 fails in the run the claim names: no contribution is registered for \<open>Restored\<close>,
  the registry is started in phase \<open>Starting\<close>, the phases \<open>Ready\<close> and \<open>Restored\<close> are
  reached and their continuations run. Whatever happens afterwards, \<open>whenRestored\<close>
  stays pending (it is never rejected either), and no idle callback of an
  \<open>Eventually\<close> batch is ever scheduled.
\<close>

theorem whenRestored_pending_forever_without_restored_contributions:
  "whenRestored
     (run ([Start, SetPhase Ready, PhaseReached 0, SetPhase Restored, PhaseReached 0] @ es)
        (init thr el built)) = Pending
   \<and> Eventually \<notin> task_phase ` set (idleQueue
       (run ([Start, SetPhase Ready, PhaseReached 0, SetPhase Restored, PhaseReached 0] @ es)
          (init thr el built)))
   \<and> whenRestored (run fs (init thr el built)) \<noteq> Rejected"
proof -
  let ?s = "run ([Start, SetPhase Ready, PhaseReached 0, SetPhase Restored, PhaseReached 0] @ es)
              (init thr el built)"
  have "restored_skipped ?s"
    unfolding run_append by (rule run_restored_skipped [OF restored_dispatched_empty])
  then have p: "whenRestored ?s = Pending"
    by (simp add: restored_skipped_def)
  have "eventually_gated ?s"
    by (rule run_eventually_gated [OF init_eventually_gated])
  with p have e: "Eventually \<notin> task_phase ` set (idleQueue ?s)"
    by (auto simp: eventually_gated_def)
  have r: "whenRestored (run fs (init thr el built)) \<noteq> Rejected"
    by (rule run_not_rejected) (simp add: init_def)
  from p e r show ?thesis by blast
qed

subsection \<open>Duplicate ids\<close>

text \<open>
  C3, as the code has it by design: when two registrations with the same id are both
  stored (neither takes the inline path) and the id is not indexed before, the by-id
  index keeps the first descriptor, the second registration changes nothing in it and
  is reported with exactly one \<open>console.error\<close>; and after any later events that do not
  register the id again, the by-id entry of the id is still the first descriptor or
  gone, and a lookup of the id calls the factory of the first descriptor or none, also
  when that factory has failed before.
\<close>

theorem duplicate_id_first_registration_wins:
  assumes "contributionsById s i = None"
    and "\<not> (inst1 \<noteq> Lazy \<and> started s \<and> inst_num inst1 \<le> phase_num (lifecyclePhase s))"
    and "\<not> (inst2 \<noteq> Lazy \<and> started s \<and> inst_num inst2 \<le> phase_num (lifecyclePhase s))"
  shows
  "(let c1 = \<lparr>reg_id = Some i, reg_ctor = k1\<rparr>;
        s1 = registerWorkbenchContribution2 (Some i) k1 inst1 s;
        s2 = registerWorkbenchContribution2 (Some i) k2 inst2 s1
    in contributionsById s1 = (contributionsById s)(i \<mapsto> c1) \<and> trace s1 = trace s
     \<and> contributionsById s2 = contributionsById s1 \<and> trace s2 = trace s1 @ [ConsoleError i]
     \<and> (\<forall>es. (\<forall>e \<in> set es. \<not> registers i e) \<longrightarrow>
           (contributionsById (run es s2) i = None \<or> contributionsById (run es s2) i = Some c1)
         \<and> (factory_calls (snd (getWorkbenchContribution i (run es s2))) = factory_calls (run es s2)
            \<or> factory_calls (snd (getWorkbenchContribution i (run es s2)))
                = factory_calls (run es s2) @ [c1])))"
proof -
  define c1 where "c1 = \<lparr>reg_id = Some i, reg_ctor = k1\<rparr>"
  define s1 where "s1 = registerWorkbenchContribution2 (Some i) k1 inst1 s"
  define s2 where "s2 = registerWorkbenchContribution2 (Some i) k2 inst2 s1"
  have a: "contributionsById s1 = (contributionsById s)(i \<mapsto> c1)" "trace s1 = trace s"
    using assms(1,2)
    by (cases "toPhase inst1"; simp add: s1_def c1_def register2_stored Let_def)+
  have st: "\<not> (inst2 \<noteq> Lazy \<and> started s1 \<and> inst_num inst2 \<le> phase_num (lifecyclePhase s1))"
    using assms(3) by (simp add: s1_def)
  have b: "contributionsById s2 = contributionsById s1" "trace s2 = trace s1 @ [ConsoleError i]"
    using a(1)
    by (cases "toPhase inst2"; simp add: s2_def register2_stored [OF st] Let_def)+
  have c: "(contributionsById (run es s2) i = None \<or> contributionsById (run es s2) i = Some c1)
         \<and> (factory_calls (snd (getWorkbenchContribution i (run es s2))) = factory_calls (run es s2)
            \<or> factory_calls (snd (getWorkbenchContribution i (run es s2)))
                = factory_calls (run es s2) @ [c1])"
    if nr: "\<forall>e \<in> set es. \<not> registers i e" for es
  proof -
    have d: "contributionsById (run es s2) i = None \<or> contributionsById (run es s2) i = Some c1"
    proof (cases "contributionsById (run es s2) i")
      case None
      then show ?thesis by simp
    next
      case (Some r)
      from run_byId_at [OF nr Some] a(1) b(1) have "r = c1" by simp
      with Some show ?thesis by simp
    qed
    then show ?thesis
      by (auto simp: get_factory_calls split: if_splits)
  qed
  from a b c show ?thesis
    unfolding Let_def c1_def [symmetric] s1_def [symmetric] s2_def [symmetric] by blast
qed

text \<open>
  Two lazy registrations under one id before \<open>start\<close>; the factory of the first fails
  at every call. After \<open>start\<close> and a first, failing lookup the first descriptor is still
  the one indexed, and a second lookup calls its factory again.
\<close>

theorem duplicate_id_first_registration_wins_witness:
  "contributionsById
     (registerWorkbenchContribution2 (Some ''a'') (Ctor ''B'') Lazy
        (registerWorkbenchContribution2 (Some ''a'') (Ctor ''A'') Lazy
           (init (\<lambda>_. True) (\<lambda>_. 0) False))) ''a''
     = Some \<lparr>reg_id = Some ''a'', reg_ctor = Ctor ''A''\<rparr>
   \<and> trace
     (registerWorkbenchContribution2 (Some ''a'') (Ctor ''B'') Lazy
        (registerWorkbenchContribution2 (Some ''a'') (Ctor ''A'') Lazy
           (init (\<lambda>_. True) (\<lambda>_. 0) False)))
     = [ConsoleError ''a'']
   \<and> factory_calls (snd (getWorkbenchContribution ''a''
        (run [Start, Get ''a'']
           (registerWorkbenchContribution2 (Some ''a'') (Ctor ''B'') Lazy
              (registerWorkbenchContribution2 (Some ''a'') (Ctor ''A'') Lazy
                 (init (\<lambda>_. True) (\<lambda>_. 0) False))))))
     = [\<lparr>reg_id = Some ''a'', reg_ctor = Ctor ''A''\<rparr>, \<lparr>reg_id = Some ''a'', reg_ctor = Ctor ''A''\<rparr>]"
proof -
  define s where "s = init (\<lambda>_. True) (\<lambda>_. 0) False"
  define s2 where "s2 = registerWorkbenchContribution2 (Some ''a'') (Ctor ''B'') Lazy
        (registerWorkbenchContribution2 (Some ''a'') (Ctor ''A'') Lazy s)"
  have h: "contributionsById s ''a'' = None" "\<not> started s" "trace s = []"
    by (simp_all add: s_def init_def)
  have f: "factory_calls (run [Start, Get ''a''] s2) = [\<lparr>reg_id = Some ''a'', reg_ctor = Ctor ''A''\<rparr>]"
    unfolding s2_def s_def by code_simp
  have g: "factory_calls (snd (getWorkbenchContribution ''a'' (run [Start, Get ''a''] s2)))
             \<noteq> factory_calls (run [Start, Get ''a''] s2)"
    unfolding s2_def s_def by code_simp
  have nr: "\<forall>e \<in> set [Start, Get ''a'']. \<not> registers ''a'' e"
    by simp
  note T = duplicate_id_first_registration_wins
             [where s = s and i = "''a''" and ?inst1.0 = Lazy and ?inst2.0 = Lazy
                and ?k1.0 = "Ctor ''A''" and ?k2.0 = "Ctor ''B''", unfolded Let_def s2_def [symmetric]]
  from T h have t1: "contributionsById s2 ''a'' = Some \<lparr>reg_id = Some ''a'', reg_ctor = Ctor ''A''\<rparr>"
    "trace s2 = [ConsoleError ''a'']"
    by simp_all
  from T h nr have "factory_calls (snd (getWorkbenchContribution ''a'' (run [Start, Get ''a''] s2)))
                      = factory_calls (run [Start, Get ''a''] s2)
                  \<or> factory_calls (snd (getWorkbenchContribution ''a'' (run [Start, Get ''a''] s2)))
                      = factory_calls (run [Start, Get ''a''] s2) @ [\<lparr>reg_id = Some ''a'', reg_ctor = Ctor ''A''\<rparr>]"
    by blast
  with f g have t2: "factory_calls (snd (getWorkbenchContribution ''a'' (run [Start, Get ''a''] s2)))
      = [\<lparr>reg_id = Some ''a'', reg_ctor = Ctor ''A''\<rparr>, \<lparr>reg_id = Some ''a'', reg_ctor = Ctor ''A''\<rparr>]"
    by simp
  from t1 t2 show ?thesis
    unfolding s2_def s_def by simp
qed

text \<open>
  The claim as stated fails. Two registrations under one id that arrive after \<open>start\<close>
  for the current phase both take the inline path: no conflict is reported and no
  descriptor is retained. And two registrations for \<open>BlockStartup\<close> before \<open>start\<close> are
  both appended to the pending sequence: when the factory of the first fails, \<open>start\<close>
  calls the factory of the second and caches its instance.
\<close>

theorem duplicate_id_counterexample:
  "trace (run [Start, Register2 (Some ''a'') (Ctor ''A'') BlockStartup,
               Register2 (Some ''a'') (Ctor ''B'') BlockStartup]
           (init (\<lambda>_. False) (\<lambda>_. 0) False))
     = [Mark (WillCreateWorkbenchContribution Starting ''a''),
        CreateInstance \<lparr>reg_id = Some ''a'', reg_ctor = Ctor ''A''\<rparr>,
        Mark (DidCreateWorkbenchContribution Starting ''a'')]
   \<and> contributionsById (run [Start, Register2 (Some ''a'') (Ctor ''A'') BlockStartup,
               Register2 (Some ''a'') (Ctor ''B'') BlockStartup]
           (init (\<lambda>_. False) (\<lambda>_. 0) False)) ''a'' = None
   \<and> contributionsByPhase (run [Register2 (Some ''a'') (Ctor ''A'') BlockStartup,
               Register2 (Some ''a'') (Ctor ''B'') BlockStartup]
           (init (\<lambda>n. n = 0) (\<lambda>_. 0) False)) Starting
     = Some [\<lparr>reg_id = Some ''a'', reg_ctor = Ctor ''A''\<rparr>, \<lparr>reg_id = Some ''a'', reg_ctor = Ctor ''B''\<rparr>]
   \<and> factory_calls (run [Register2 (Some ''a'') (Ctor ''A'') BlockStartup,
               Register2 (Some ''a'') (Ctor ''B'') BlockStartup, Start]
           (init (\<lambda>n. n = 0) (\<lambda>_. 0) False))
     = [\<lparr>reg_id = Some ''a'', reg_ctor = Ctor ''A''\<rparr>, \<lparr>reg_id = Some ''a'', reg_ctor = Ctor ''B''\<rparr>]
   \<and> instancesById (run [Register2 (Some ''a'') (Ctor ''A'') BlockStartup,
               Register2 (Some ''a'') (Ctor ''B'') BlockStartup, Start]
           (init (\<lambda>n. n = 0) (\<lambda>_. 0) False)) ''a''
     = Some (Instance (Ctor ''B'') 1)"
  by code_simp

end
